theory Spec2Isabelle
  imports Main "HOL-Library.List_Lexorder" "HOL-Library.Char_ord"
begin

section \<open>Strings, sets and process results of the Python program\<close>

text \<open>
  The program is \<^verbatim>\<open>topo_order_commits.py\<close>. Python strings are modelled as \<open>string\<close>
  (lists of characters). A Python \<^verbatim>\<open>set\<close> of strings is modelled as the list of its
  elements in the order in which the set iterates; the theorems below quantify over
  these lists, so they hold for every iteration order.
\<close>

type_synonym hash = string

abbreviation NL :: char where
  "NL \<equiv> CHR 0x0A"

text \<open>\<^verbatim>\<open>sys.exit\<close>/\<^verbatim>\<open>exit\<close> after an optional write to the error stream, and the
  exception \<^verbatim>\<open>KeyError\<close> of a dictionary lookup or of \<^verbatim>\<open>set.remove\<close>, which the
  program never catches.\<close>

datatype failure = Exit string nat | KeyError

text \<open>\<^verbatim>\<open>s.add(x)\<close> on a set.\<close>

definition set_add :: "'a \<Rightarrow> 'a list \<Rightarrow> 'a list" where
  "set_add x xs = (if x \<in> set xs then xs else xs @ [x])"

text \<open>\<^verbatim>\<open>s.remove(x)\<close> on a set: \<^verbatim>\<open>KeyError\<close> when \<open>x\<close> is not a member.\<close>

definition set_remove :: "'a \<Rightarrow> 'a list \<Rightarrow> failure + 'a list" where
  "set_remove x xs = (if x \<in> set xs then Inr (remove1 x xs) else Inl KeyError)"

text \<open>\<^verbatim>\<open>s.split(sep)\<close> with an explicit one-character separator: every occurrence of
  the separator ends a field, so \<open>n\<close> separators give \<open>n + 1\<close> fields, some possibly
  empty.\<close>

fun py_split :: "char \<Rightarrow> string \<Rightarrow> string list" where
  "py_split sep [] = [[]]"
| "py_split sep (c # cs) =
     (if c = sep then [] # py_split sep cs
      else (case py_split sep cs of
              [] \<Rightarrow> [[c]]
            | w # ws \<Rightarrow> (c # w) # ws))"

text \<open>\<^verbatim>\<open>s.replace("\n", " ")\<close>.\<close>

definition replace_nl :: "string \<Rightarrow> string" where
  "replace_nl s = map (\<lambda>c. if c = NL then CHR '' '' else c) s"

text \<open>\<^verbatim>\<open>sep.join(xs)\<close>.\<close>

fun py_join :: "string \<Rightarrow> string list \<Rightarrow> string" where
  "py_join sep [] = []"
| "py_join sep [x] = x"
| "py_join sep (x # y # ys) = x @ sep @ py_join sep (y # ys)"

text \<open>\<^verbatim>\<open>s.strip()\<close>: the white space characters of Python are removed at both ends. A
  \<open>char\<close> stands for a code point below 256; of these, Python counts as white space
  tab, line feed, vertical tab, form feed, carriage return, the separators 0x1C to
  0x1F, space, next line (0x85) and no-break space (0xA0).\<close>

definition is_space :: "char \<Rightarrow> bool" where
  "is_space c = (c \<in> set [CHR 0x09, CHR 0x0A, CHR 0x0B, CHR 0x0C, CHR 0x0D,
                            CHR 0x1C, CHR 0x1D, CHR 0x1E, CHR 0x1F, CHR 0x20,
                            CHR 0x85, CHR 0xA0])"

definition strip :: "string \<Rightarrow> string" where
  "strip s = rev (dropWhile is_space (rev (dropWhile is_space s)))"

section \<open>Object Reader: \<^verbatim>\<open>parents\<close>\<close>

text \<open>The loop of \<^verbatim>\<open>parents\<close> over \<^verbatim>\<open>enumerate(decompressed_object)\<close>: the token after
  a token \<^verbatim>\<open>parent\<close> is added when \<^verbatim>\<open>i + 1 < len(decompressed_object) - 1\<close>.\<close>

definition parents_step :: "string list \<Rightarrow> nat \<times> string \<Rightarrow> hash list \<Rightarrow> hash list" where
  "parents_step toks it results =
     (let i = fst it; text = snd it;
          next_in_bounds = (int i + 1 < int (length toks) - 1)
      in if text = ''parent'' \<and> next_in_bounds then set_add (toks ! (i + 1)) results
         else results)"

definition parents_of_tokens :: "string list \<Rightarrow> hash list" where
  "parents_of_tokens toks = fold (parents_step toks) (enumerate 0 toks) []"

text \<open>The text of a decompressed object, split at spaces and new lines.\<close>

definition tokens :: "string \<Rightarrow> string list" where
  "tokens payload = py_split (CHR '' '') (replace_nl payload)"

definition parents_of_payload :: "string \<Rightarrow> hash list" where
  "parents_of_payload payload = parents_of_tokens (tokens payload)"

text \<open>The path of the object file of a hash, as \<^verbatim>\<open>parents\<close> formats it from the
  working directory.\<close>

definition object_path :: "string \<Rightarrow> hash \<Rightarrow> string" where
  "object_path cwd h = cwd @ ''/.git/objects/'' @ take 2 h @ ''/'' @ drop 2 h"

text \<open>What the program sees of its environment: the working directory
  (\<^verbatim>\<open>os.getcwd()\<close>), the paths that exist (\<^verbatim>\<open>os.path.exists\<close>), the result of
  \<^verbatim>\<open>os.walk\<close> from a directory (directory path, directory names, file names), the text
  of the files opened for reading, and the object files: the paths for which
  \<^verbatim>\<open>os.path.isfile\<close> holds under the object directory, each with the text that
  \<^verbatim>\<open>zlib.decompress(...).decode("utf-8")\<close> gives for it.\<close>

record env =
  cwd :: string
  path_exists :: "string \<Rightarrow> bool"
  os_walk :: "string \<Rightarrow> (string \<times> string list \<times> string list) list"
  read_text :: "string \<Rightarrow> string"
  objects :: "(string \<times> string) list"

definition parents_of :: "env \<Rightarrow> hash \<Rightarrow> failure + hash list" where
  "parents_of e h =
     (case map_of (objects e) (object_path (cwd e) h) of
        None \<Rightarrow> Inl (Exit (''Object for hash '' @ h @ '' not found'') 1)
      | Some payload \<Rightarrow> Inr (parents_of_payload payload))"

text \<open>The reading of the specification, for comparison with \<open>parents_of_payload\<close>: the
  fields are the lines of the payload, and a field that begins with the token
  \<^verbatim>\<open>parent\<close> carries a parent hash as its second word.\<close>

definition parent_line_hashes :: "string \<Rightarrow> hash list" where
  "parent_line_hashes payload =
     concat (map (\<lambda>l. case py_split (CHR '' '') l of
                         w # h # rest \<Rightarrow> (if w = ''parent'' then [h] else [])
                       | _ \<Rightarrow> [])
                 (py_split NL payload))"

section \<open>Commit nodes, the object store of the interpreter and the Graph\<close>

text \<open>The class \<^verbatim>\<open>CommitNode\<close>: its constructor stores the hash it is given and two
  empty sets.\<close>

record CommitNode =
  commit_hash :: hash
  parents :: "hash list"
  children :: "hash list"

definition new_CommitNode :: "hash \<Rightarrow> CommitNode" where
  "new_CommitNode h = \<lparr>commit_hash = h, parents = [], children = []\<rparr>"

text \<open>
  \<^verbatim>\<open>CommitNode\<close> objects are mutable and the dictionaries of the program hold
  references to them, so the objects live in a store: \<open>cell s a\<close> is the object at the
  address \<open>a\<close>, and the addresses below \<open>next_free s\<close> are the allocated ones. A Graph
  (\<^verbatim>\<open>dict\<close> from hash to \<^verbatim>\<open>CommitNode\<close>) is the list of its items in insertion order,
  each key with the address of its node.
\<close>

record store =
  cell :: "nat \<Rightarrow> CommitNode"
  next_free :: nat

type_synonym graph = "(hash \<times> nat) list"

definition empty_store :: store where
  "empty_store = \<lparr>cell = (\<lambda>a. new_CommitNode []), next_free = 0\<rparr>"

definition alloc :: "CommitNode \<Rightarrow> store \<Rightarrow> store" where
  "alloc n s = \<lparr>cell = (cell s)(next_free s := n), next_free = Suc (next_free s)\<rparr>"

definition put :: "nat \<Rightarrow> CommitNode \<Rightarrow> store \<Rightarrow> store" where
  "put a n s = s\<lparr>cell := (cell s)(a := n)\<rparr>"

section \<open>Graph Builder: \<^verbatim>\<open>make_commit_graph\<close>\<close>

text \<open>\<^verbatim>\<open>if key not in result: result[key] = CommitNode(h)\<close> followed by the lookup
  \<^verbatim>\<open>result[key]\<close>: the store, the dictionary and the address of the node of \<open>key\<close>.\<close>

definition ensure_node :: "hash \<Rightarrow> hash \<Rightarrow> store \<Rightarrow> graph \<Rightarrow> store \<times> graph \<times> nat" where
  "ensure_node key h s result =
     (case map_of result key of
        Some a \<Rightarrow> (s, result, a)
      | None \<Rightarrow> (alloc (new_CommitNode h) s, result @ [(key, next_free s)], next_free s))"

text \<open>The loop \<^verbatim>\<open>for parent in curr_parents\<close>. The node of a parent that has none yet is
  built as \<^verbatim>\<open>CommitNode(curr_hash)\<close>.\<close>

fun add_parents ::
  "hash \<Rightarrow> nat \<Rightarrow> hash list \<Rightarrow> hash list \<Rightarrow> store \<times> graph \<times> hash list
     \<Rightarrow> store \<times> graph \<times> hash list" where
  "add_parents curr_hash ca visited [] st = st"
| "add_parents curr_hash ca visited (parent # ps) (s, result, stack) =
     (case ensure_node parent curr_hash s result of
        (s1, result1, pa) \<Rightarrow>
          let s2 = put ca ((cell s1 ca)\<lparr>parents := set_add parent (parents (cell s1 ca))\<rparr>) s1;
              s3 = put pa ((cell s2 pa)\<lparr>children := set_add curr_hash (children (cell s2 pa))\<rparr>) s2;
              stack1 = (if parent \<notin> set visited then set_add parent stack else stack)
          in add_parents curr_hash ca visited ps (s3, result1, stack1))"

lemma object_path_inj: "object_path d h = object_path d h' \<Longrightarrow> h = h'"
proof -
  assume "object_path d h = object_path d h'"
  then have e: "take 2 h @ ''/'' @ drop 2 h = take 2 h' @ ''/'' @ drop 2 h'"
    by (simp add: object_path_def)
  then have "length (take 2 h @ ''/'' @ drop 2 h) = length (take 2 h' @ ''/'' @ drop 2 h')"
    by simp
  then have "length h = length h'"
    by simp
  then have "length (take 2 h) = length (take 2 h')" by simp
  with e have "take 2 h = take 2 h'" "drop 2 h = drop 2 h'" by auto
  then show "h = h'" by (metis append_take_drop_id)
qed

text \<open>The loop \<^verbatim>\<open>while stack\<close>. \<^verbatim>\<open>stack.pop()\<close> takes the first element of the set in
  its iteration order. The loop ends because every hash is read once and only finitely
  many object files exist.\<close>

function make_commit_graph_loop ::
  "env \<Rightarrow> hash list \<Rightarrow> store \<Rightarrow> graph \<Rightarrow> hash list \<Rightarrow> failure + (store \<times> graph)" where
  "make_commit_graph_loop e stack s result visited =
     (case stack of
        [] \<Rightarrow> Inr (s, result)
      | popped # rest \<Rightarrow>
          let curr_hash = strip popped in
          if curr_hash \<in> set visited then make_commit_graph_loop e rest s result visited
          else
            (case ensure_node curr_hash curr_hash s result of
               (s1, result1, ca) \<Rightarrow>
                 (case parents_of e curr_hash of
                    Inl f \<Rightarrow> Inl f
                  | Inr curr_parents \<Rightarrow>
                      (case add_parents curr_hash ca (set_add curr_hash visited) curr_parents
                              (s1, result1, rest) of
                         (s2, result2, stack2) \<Rightarrow>
                           make_commit_graph_loop e stack2 s2 result2
                             (set_add curr_hash visited)))))"
  by pat_completeness auto
termination
proof (relation "(\<lambda>(e, stack, s, result, visited).
          card (set (map fst (objects e)) - object_path (cwd e) ` set visited))
        <*mlex*> measure (\<lambda>(e, stack, s, result, visited). length stack)", goal_cases)
  case 1
  then show ?case by (simp add: wf_mlex)
next
  case (2 e stack s result visited popped rest cur)
  then show ?case by (simp add: mlex_iff)
next
  case (3 e stack s result visited popped rest cur)
  let ?P = "set (map fst (objects e))"
  let ?f = "object_path (cwd e)"
  from 3 obtain ps where nv: "cur \<notin> set visited" and par: "parents_of e cur = Inr ps"
    by auto
  from par have "?f cur \<in> ?P"
    by (auto simp: parents_of_def split: option.splits dest!: map_of_SomeD intro: rev_image_eqI)
  moreover have "?f cur \<notin> ?f ` set visited"
    using nv by (auto dest: object_path_inj)
  ultimately have "?P - ?f ` set (set_add cur visited) \<subset> ?P - ?f ` set visited"
    by (auto simp: set_add_def)
  then have "card (?P - ?f ` set (set_add cur visited)) < card (?P - ?f ` set visited)"
    by (intro psubset_card_mono) simp_all
  with 3 show ?case by (simp add: mlex_iff)
qed

declare make_commit_graph_loop.simps [simp del]

text \<open>\<^verbatim>\<open>make_commit_graph\<close>: the stack starts as the keys of the BranchMap, the dictionary
  and the visited set start empty.\<close>

type_synonym branches = "(hash \<times> string list) list"

definition make_commit_graph :: "env \<Rightarrow> branches \<Rightarrow> failure + (store \<times> graph)" where
  "make_commit_graph e branch_dict =
     make_commit_graph_loop e (map fst branch_dict) empty_store [] []"

section \<open>Topological Sorter: \<^verbatim>\<open>topo_sort\<close>\<close>

text \<open>\<^verbatim>\<open>copy.deepcopy(graph)\<close>: the items are copied in order, every node object into a
  new object with copies of its two sets; the memo of \<^verbatim>\<open>deepcopy\<close> maps a node that was
  copied before to its copy. The copy of a set is taken to iterate in the order of the
  original; the properties proved of \<^verbatim>\<open>topo_sort\<close> hold for every order of the sets of
  its input and say nothing that depends on the order of the copy.\<close>

fun deepcopy_items :: "(nat \<times> nat) list \<Rightarrow> graph \<Rightarrow> store \<Rightarrow> store \<times> graph" where
  "deepcopy_items memo [] s = (s, [])"
| "deepcopy_items memo ((k, a) # g) s =
     (case map_of memo a of
        Some a' \<Rightarrow>
          (case deepcopy_items memo g s of (s', g') \<Rightarrow> (s', (k, a') # g'))
      | None \<Rightarrow>
          (case deepcopy_items ((a, next_free s) # memo) g (alloc (cell s a) s) of
             (s', g') \<Rightarrow> (s', (k, next_free s) # g')))"

definition deepcopy :: "store \<Rightarrow> graph \<Rightarrow> store \<times> graph" where
  "deepcopy s g = deepcopy_items [] g s"

text \<open>The first loop of \<^verbatim>\<open>topo_sort\<close>: the keys whose node has no children, in the
  order of the dictionary.\<close>

definition childless :: "store \<Rightarrow> graph \<Rightarrow> hash list" where
  "childless s g =
     filter (\<lambda>h. case map_of g h of
                    None \<Rightarrow> False
                  | Some a \<Rightarrow> length (children (cell s a)) = 0)
            (map fst g)"

text \<open>The loop \<^verbatim>\<open>for phash in curr_parents\<close>: both directions of the edge are removed
  in the copy, and a parent left without children joins the queue.\<close>

fun remove_edges ::
  "graph \<Rightarrow> hash \<Rightarrow> hash list \<Rightarrow> store \<Rightarrow> hash list \<Rightarrow> store \<times> (failure + hash list)" where
  "remove_edges cg curr_hash [] s queue = (s, Inr queue)"
| "remove_edges cg curr_hash (phash # ps) s queue =
     (case map_of cg curr_hash of
        None \<Rightarrow> (s, Inl KeyError)
      | Some ca \<Rightarrow>
          (case set_remove phash (parents (cell s ca)) of
             Inl f \<Rightarrow> (s, Inl f)
           | Inr ps' \<Rightarrow>
               let s1 = put ca ((cell s ca)\<lparr>parents := ps'\<rparr>) s in
               (case map_of cg phash of
                  None \<Rightarrow> (s1, Inl KeyError)
                | Some pa \<Rightarrow>
                    (case set_remove curr_hash (children (cell s1 pa)) of
                       Inl f \<Rightarrow> (s1, Inl f)
                     | Inr cs' \<Rightarrow>
                         let s2 = put pa ((cell s1 pa)\<lparr>children := cs'\<rparr>) s1 in
                         remove_edges cg curr_hash ps s2
                           (if length (children (cell s2 pa)) = 0 then queue @ [phash]
                            else queue)))))"

text \<open>The number of parent entries of the nodes of a graph: every round of the loop
  below removes the parent entries of the node it takes from the queue.\<close>

definition parent_entries :: "graph \<Rightarrow> store \<Rightarrow> nat" where
  "parent_entries cg s = (\<Sum>a \<in> set (map snd cg). length (parents (cell s a)))"

lemma parent_entries_put_parents:
  assumes "(k, a) \<in> set cg" "p \<in> set (parents (cell s a))"
  shows "Suc (parent_entries cg (put a ((cell s a)\<lparr>parents := remove1 p (parents (cell s a))\<rparr>) s))
         = parent_entries cg s"
proof -
  let ?A = "set (map snd cg)"
  let ?s' = "put a ((cell s a)\<lparr>parents := remove1 p (parents (cell s a))\<rparr>) s"
  have a: "a \<in> ?A" using assms(1) by force
  have r: "(\<Sum>b \<in> ?A - {a}. length (parents (cell ?s' b)))
         = (\<Sum>b \<in> ?A - {a}. length (parents (cell s b)))"
    by (rule sum.cong) (simp_all add: put_def)
  have "parent_entries cg ?s' = length (parents (cell ?s' a))
          + (\<Sum>b \<in> ?A - {a}. length (parents (cell ?s' b)))"
    unfolding parent_entries_def using a by (simp add: sum.remove)
  moreover have "parent_entries cg s = length (parents (cell s a))
          + (\<Sum>b \<in> ?A - {a}. length (parents (cell s b)))"
    unfolding parent_entries_def using a by (simp add: sum.remove)
  moreover have "Suc (length (parents (cell ?s' a))) = length (parents (cell s a))"
    using assms(2) length_pos_if_in_set[OF assms(2)] by (simp add: put_def length_remove1)
  ultimately show ?thesis using r by simp
qed

lemma parent_entries_put_children:
  "parent_entries cg (put a ((cell s a)\<lparr>children := cs\<rparr>) s) = parent_entries cg s"
  unfolding parent_entries_def by (rule sum.cong) (simp_all add: put_def)

lemma remove_edges_measure:
  "remove_edges cg cur ps s q = (s', Inr q') \<Longrightarrow>
     parent_entries cg s' + length ps = parent_entries cg s \<and> length q' \<le> length q + length ps"
proof (induction ps arbitrary: s q)
  case Nil
  then show ?case by simp
next
  case (Cons p ps)
  from Cons.prems obtain ca pa where
    ca: "map_of cg cur = Some ca" and pin: "p \<in> set (parents (cell s ca))"
    and pa: "map_of cg p = Some pa"
    by (auto simp: set_remove_def Let_def split: option.splits sum.splits if_splits)
  let ?s1 = "put ca ((cell s ca)\<lparr>parents := remove1 p (parents (cell s ca))\<rparr>) s"
  let ?s2 = "put pa ((cell ?s1 pa)\<lparr>children := remove1 cur (children (cell ?s1 pa))\<rparr>) ?s1"
  let ?q = "if length (children (cell ?s2 pa)) = 0 then q @ [p] else q"
  from Cons.prems ca pin pa have rec: "remove_edges cg cur ps ?s2 ?q = (s', Inr q')"
    by (auto simp: set_remove_def Let_def split: option.splits sum.splits if_splits)
  from Cons.IH[OF rec] have ih: "parent_entries cg s' + length ps = parent_entries cg ?s2"
    "length q' \<le> length ?q + length ps" by simp_all
  have "parent_entries cg ?s2 = parent_entries cg ?s1"
    by (rule parent_entries_put_children)
  moreover have "Suc (parent_entries cg ?s1) = parent_entries cg s"
    using map_of_SomeD[OF ca] pin by (rule parent_entries_put_parents)
  ultimately show ?case using ih by (auto split: if_splits)
qed

text \<open>The loop \<^verbatim>\<open>while queue\<close> (Kahn's algorithm): \<^verbatim>\<open>queue.pop(0)\<close> takes the head.\<close>

function sort_loop ::
  "graph \<Rightarrow> store \<Rightarrow> hash list \<Rightarrow> hash list \<Rightarrow> store \<times> (failure + hash list)" where
  "sort_loop cg s queue result =
     (case queue of
        [] \<Rightarrow> (s, Inr result)
      | curr_hash # rest \<Rightarrow>
          (case map_of cg curr_hash of
             None \<Rightarrow> (s, Inl KeyError)
           | Some ca \<Rightarrow>
               (case remove_edges cg curr_hash (parents (cell s ca)) s rest of
                  (s', Inl f) \<Rightarrow> (s', Inl f)
                | (s', Inr queue') \<Rightarrow> sort_loop cg s' queue' (result @ [curr_hash]))))"
  by pat_completeness auto
termination sort_loop
proof (relation "measure (\<lambda>(cg, s, queue, result). 2 * parent_entries cg s + length queue)",
    goal_cases)
  case 1
  then show ?case by simp
next
  case (2 cg s queue result c rest ca s' y queue')
  then have "remove_edges cg c (parents (cell s ca)) s rest = (s', Inr queue')"
    by simp
  from remove_edges_measure[OF this] 2 show ?case by simp
qed

text \<open>\<^verbatim>\<open>topo_sort\<close>: the store after the call, and the list it returns or the way it
  ends the process.\<close>

definition topo_sort :: "store \<Rightarrow> graph \<Rightarrow> store \<times> (failure + hash list)" where
  "topo_sort s graph =
     (case deepcopy s graph of
        (s1, copied_graph) \<Rightarrow>
          (case sort_loop copied_graph s1 (childless s1 copied_graph) [] of
             (s2, Inl f) \<Rightarrow> (s2, Inl f)
           | (s2, Inr result) \<Rightarrow>
               if length result \<noteq> length graph
               then (s2, Inl (Exit ''Cycle detected in graph'' 1))
               else (s2, Inr result)))"

section \<open>Discontinuity-Aware Printer: \<^verbatim>\<open>print_topo_sort\<close>\<close>

text \<open>The line of a commit: the hash, followed by a space and the sorted branch names
  joined by spaces when the BranchMap has the hash.\<close>

definition commit_line :: "branches \<Rightarrow> hash \<Rightarrow> string" where
  "commit_line local_branches_dict cur_hash =
     (case map_of local_branches_dict cur_hash of
        Some names \<Rightarrow> cur_hash @ '' '' @ py_join '' '' (sort names)
      | None \<Rightarrow> cur_hash)"

text \<open>
  The loop of \<^verbatim>\<open>print_topo_sort\<close> over the positions of \<^verbatim>\<open>ordered_graph\<close>, as a
  recursion over the commits from the current position on; \<open>discontinuity\<close> is the
  flag of the source. The result lists the arguments of the calls of \<^verbatim>\<open>print\<close> (each is
  written to the standard output followed by a new line) and tells whether a lookup
  \<^verbatim>\<open>commit_graph[curr_hash]\<close> raised \<^verbatim>\<open>KeyError\<close>.
\<close>

fun print_loop ::
  "store \<Rightarrow> graph \<Rightarrow> branches \<Rightarrow> bool \<Rightarrow> hash list \<Rightarrow> string list \<times> failure option" where
  "print_loop s commit_graph b discontinuity [] = ([], None)"
| "print_loop s commit_graph b discontinuity (cur_hash # rest) =
     (if discontinuity \<and> map_of commit_graph cur_hash = None then ([], Some KeyError)
      else
        let sticky_start =
              (case map_of commit_graph cur_hash of
                 Some a \<Rightarrow> (if discontinuity then [''='' @ py_join '' '' (children (cell s a))]
                            else [])
               | None \<Rightarrow> []);
            line = commit_line b cur_hash
        in (case rest of
              [] \<Rightarrow> (sticky_start @ [line], None)
            | nxt # _ \<Rightarrow>
                (case map_of commit_graph cur_hash of
                   None \<Rightarrow> (sticky_start @ [line], Some KeyError)
                 | Some a \<Rightarrow>
                     if nxt \<notin> set (parents (cell s a))
                     then (case print_loop s commit_graph b True rest of
                             (out, r) \<Rightarrow>
                               (sticky_start
                                  @ [line, py_join '' '' (parents (cell s a)) @ ''='' @ [NL]]
                                  @ out, r))
                     else (case print_loop s commit_graph b False rest of
                             (out, r) \<Rightarrow> (sticky_start @ [line] @ out, r)))))"

definition print_topo_sort ::
  "store \<Rightarrow> graph \<Rightarrow> hash list \<Rightarrow> branches \<Rightarrow> string list \<times> failure option" where
  "print_topo_sort s commit_graph ordered_graph local_branches_dict =
     print_loop s commit_graph local_branches_dict False ordered_graph"

text \<open>The text that a list of \<^verbatim>\<open>print\<close> calls leaves on the standard output.\<close>

definition stdout_text :: "string list \<Rightarrow> string" where
  "stdout_text out = concat (map (\<lambda>l. l @ [NL]) out)"

section \<open>Branch Enumerator: \<^verbatim>\<open>get_local_branches\<close>\<close>

text \<open>\<^verbatim>\<open>os.path.join\<close> with two arguments.\<close>

definition path_join :: "string \<Rightarrow> string \<Rightarrow> string" where
  "path_join a b =
     (if b \<noteq> [] \<and> hd b = CHR ''/'' then b
      else if a = [] \<or> last a = CHR ''/'' then a @ b
      else a @ ''/'' @ b)"

text \<open>\<^verbatim>\<open>if hash not in branches: branches[hash] = set()\<close> and
  \<^verbatim>\<open>branches[hash].add(branch_name)\<close>.\<close>

definition add_branch :: "hash \<Rightarrow> string \<Rightarrow> branches \<Rightarrow> branches" where
  "add_branch h branch_name bs =
     (if h \<in> set (map fst bs)
      then map (\<lambda>(k, names). if k = h then (k, set_add branch_name names) else (k, names)) bs
      else bs @ [(h, [branch_name])])"

text \<open>The loop \<^verbatim>\<open>for filename in filenames\<close>. A file that does not exist ends the
  process by \<^verbatim>\<open>exit(1)\<close>, with nothing written. The branch name is the file path
  without its first \<^verbatim>\<open>len(os.getcwd() + "/.git/refs/heads/")\<close> characters.\<close>

fun branch_files :: "env \<Rightarrow> string \<Rightarrow> string list \<Rightarrow> branches \<Rightarrow> failure + branches" where
  "branch_files e dirpath [] bs = Inr bs"
| "branch_files e dirpath (filename # filenames) bs =
     (let file_path = path_join dirpath filename in
      if \<not> path_exists e file_path then Inl (Exit [] 1)
      else
        let h = strip (read_text e file_path);
            branch_name = drop (length (cwd e @ ''/.git/refs/heads/'')) file_path
        in branch_files e dirpath filenames (add_branch h branch_name bs))"

text \<open>The loop over \<^verbatim>\<open>os.walk(path_to_branches)\<close>.\<close>

fun walk_loop ::
  "env \<Rightarrow> (string \<times> string list \<times> string list) list \<Rightarrow> branches \<Rightarrow> failure + branches" where
  "walk_loop e [] bs = Inr bs"
| "walk_loop e ((dirpath, dirnames, filenames) # ws) bs =
     (if filenames = [] then walk_loop e ws bs
      else (case branch_files e dirpath filenames bs of
              Inl f \<Rightarrow> Inl f
            | Inr bs' \<Rightarrow> walk_loop e ws bs'))"

definition get_local_branches :: "env \<Rightarrow> string \<Rightarrow> failure + branches" where
  "get_local_branches e git_dirpath =
     (let path_to_branches = path_join (path_join git_dirpath ''refs'') ''heads''
      in walk_loop e (os_walk e path_to_branches) [])"

section \<open>Repository Locator: \<^verbatim>\<open>find_git_directory\<close>\<close>

text \<open>\<^verbatim>\<open>os.path.dirname\<close>: the path up to its last slash, without the slashes that end
  it unless it consists of slashes only.\<close>

definition dirname :: "string \<Rightarrow> string" where
  "dirname p =
     (let head = rev (dropWhile (\<lambda>c. c \<noteq> CHR ''/'') (rev p)) in
      if head \<noteq> [] \<and> \<not> list_all (\<lambda>c. c = CHR ''/'') head
      then rev (dropWhile (\<lambda>c. c = CHR ''/'') (rev head))
      else head)"

text \<open>The loop \<^verbatim>\<open>while parent_dirname != '/'\<close>; it gives the value of \<^verbatim>\<open>git_dirpath\<close>
  after the loop, and nothing when the loop does not end.\<close>

partial_function (option) find_git_loop :: "env \<Rightarrow> string \<Rightarrow> string option" where
  "find_git_loop e parent_dirname =
     (if parent_dirname \<noteq> ''/'' then
        (let git_path_attempt = path_join parent_dirname ''.git'' in
         if path_exists e git_path_attempt then Some git_path_attempt
         else find_git_loop e (dirname parent_dirname))
      else Some [])"

declare find_git_loop.simps [code]

definition find_git_directory :: "env \<Rightarrow> (failure + string) option" where
  "find_git_directory e =
     (case find_git_loop e (cwd e) of
        None \<Rightarrow> None
      | Some git_dirpath \<Rightarrow>
          Some (if git_dirpath = [] then Inl (Exit (''Not inside a Git repository'' @ [NL]) 1)
                else Inr git_dirpath))"

section \<open>The driver: \<^verbatim>\<open>topo_order_commits\<close>\<close>

text \<open>What a run of the program leaves: the arguments of its \<^verbatim>\<open>print\<close> calls, and the way
  it ended (\<open>None\<close> for a normal end with exit status 0).\<close>

record outcome =
  stdout :: "string list"
  ended :: "failure option"

definition topo_order_commits :: "env \<Rightarrow> outcome option" where
  "topo_order_commits e =
     (case find_git_directory e of
        None \<Rightarrow> None
      | Some (Inl f) \<Rightarrow> Some \<lparr>stdout = [], ended = Some f\<rparr>
      | Some (Inr git_dirpath) \<Rightarrow>
          Some (case get_local_branches e git_dirpath of
                  Inl f \<Rightarrow> \<lparr>stdout = [], ended = Some f\<rparr>
                | Inr local_branches_dict \<Rightarrow>
                    (case make_commit_graph e local_branches_dict of
                       Inl f \<Rightarrow> \<lparr>stdout = [], ended = Some f\<rparr>
                     | Inr (s, commit_graph) \<Rightarrow>
                         (case topo_sort s commit_graph of
                            (s', Inl f) \<Rightarrow> \<lparr>stdout = [], ended = Some f\<rparr>
                          | (s', Inr ordered_graph) \<Rightarrow>
                              (case print_topo_sort s' commit_graph ordered_graph
                                      local_branches_dict of
                                 (out, r) \<Rightarrow> \<lparr>stdout = out, ended = r\<rparr>)))))"

section \<open>The Graph invariant and the state of the sorter\<close>

text \<open>The position of the first occurrence of an element in a list (\<^verbatim>\<open>list.index\<close>); it
  is the length of the list when the element does not occur.\<close>

definition index_of :: "'a \<Rightarrow> 'a list \<Rightarrow> nat" where
  "index_of x xs = length (takeWhile (\<lambda>z. z \<noteq> x) xs)"

text \<open>The items of a Graph by value: every key with the node its address holds.\<close>

definition node_items :: "store \<Rightarrow> graph \<Rightarrow> (hash \<times> CommitNode) list" where
  "node_items s g = map (\<lambda>(k, a). (k, cell s a)) g"

text \<open>
  The invariant of the Graph in the data model: the keys are distinct, the parents and
  the children of a node are sets, every parent and every child of a node is a key, and
  the two relations are inverse to each other: \<open>p\<close> is a parent of \<open>k\<close> exactly when \<open>k\<close>
  is a child of \<open>p\<close>. In the store, every key has a node object of its own, allocated.
\<close>

definition wf_items :: "(hash \<times> CommitNode) list \<Rightarrow> bool" where
  "wf_items v \<longleftrightarrow>
     distinct (map fst v) \<and>
     (\<forall>(k, n) \<in> set v.
        distinct (parents n) \<and> distinct (children n) \<and>
        (\<forall>p \<in> set (parents n).
           case map_of v p of None \<Rightarrow> False | Some pn \<Rightarrow> k \<in> set (children pn)) \<and>
        (\<forall>c \<in> set (children n).
           case map_of v c of None \<Rightarrow> False | Some cn \<Rightarrow> k \<in> set (parents cn)))"

definition wf_graph :: "store \<Rightarrow> graph \<Rightarrow> bool" where
  "wf_graph s g \<longleftrightarrow>
     distinct (map snd g) \<and> (\<forall>(k, a) \<in> set g. a < next_free s) \<and> wf_items (node_items s g)"

text \<open>The edges of a Graph: the pairs of a commit and one of its parents. The Graph is
  acyclic when this relation is.\<close>

definition edges_of :: "(hash \<times> CommitNode) list \<Rightarrow> (hash \<times> hash) set" where
  "edges_of v = set (concat (map (\<lambda>(c, n). map (Pair c) (parents n)) v))"

definition edges :: "store \<Rightarrow> graph \<Rightarrow> (hash \<times> hash) set" where
  "edges s g = edges_of (node_items s g)"

text \<open>
  The state of \<^verbatim>\<open>topo_sort\<close> between two rounds of its outer loop, against the copy \<open>s0\<close>
  as it was made: the commits of \<open>res\<close> have lost their parents, and the children of
  every node are those it had less the commits of \<open>res\<close>. Inside the inner loop for the
  commit \<open>c\<close>, \<open>ps\<close> are the parents still to remove and \<open>dn\<close> the parents already
  removed. \<open>loop_queue\<close> says that the commits without children are those of the result
  and the queue; \<open>loop_order\<close> that in this list nothing is repeated and every child
  stands before its parents.
\<close>

definition inner_parents ::
  "graph \<Rightarrow> store \<Rightarrow> store \<Rightarrow> hash \<Rightarrow> hash list \<Rightarrow> hash list \<Rightarrow> bool" where
  "inner_parents cg s0 s c ps res \<longleftrightarrow>
     (\<forall>(k, a) \<in> set cg. parents (cell s a) =
        (if k = c then ps else if k \<in> set res then [] else parents (cell s0 a)))"

definition inner_children ::
  "graph \<Rightarrow> store \<Rightarrow> store \<Rightarrow> hash \<Rightarrow> hash list \<Rightarrow> hash list \<Rightarrow> bool" where
  "inner_children cg s0 s c dn res \<longleftrightarrow>
     (\<forall>(k, a) \<in> set cg. distinct (children (cell s a)) \<and>
        set (children (cell s a)) =
          set (children (cell s0 a)) - set res - (if k \<in> set dn then {c} else {}))"

definition loop_parents :: "graph \<Rightarrow> store \<Rightarrow> store \<Rightarrow> hash list \<Rightarrow> bool" where
  "loop_parents cg s0 s res \<longleftrightarrow>
     (\<forall>(k, a) \<in> set cg. parents (cell s a) =
        (if k \<in> set res then [] else parents (cell s0 a)))"

definition loop_children :: "graph \<Rightarrow> store \<Rightarrow> store \<Rightarrow> hash list \<Rightarrow> bool" where
  "loop_children cg s0 s res \<longleftrightarrow>
     (\<forall>(k, a) \<in> set cg. distinct (children (cell s a)) \<and>
        set (children (cell s a)) = set (children (cell s0 a)) - set res)"

definition loop_queue :: "graph \<Rightarrow> store \<Rightarrow> hash list \<Rightarrow> bool" where
  "loop_queue cg s l \<longleftrightarrow> (\<forall>(k, a) \<in> set cg. (children (cell s a) = []) = (k \<in> set l))"

definition loop_order :: "graph \<Rightarrow> store \<Rightarrow> hash list \<Rightarrow> bool" where
  "loop_order cg s0 l \<longleftrightarrow>
     distinct l \<and> set l \<subseteq> fst ` set cg \<and>
     (\<forall>(x, y) \<in> edges s0 cg. y \<in> set l \<longrightarrow> index_of x l < index_of y l)"

section \<open>Example repositories\<close>

text \<open>The text of a commit object with the given parents.\<close>

definition commit_text :: "hash list \<Rightarrow> string" where
  "commit_text ps =
     ''tree t'' @ [NL] @ concat (map (\<lambda>p. ''parent '' @ p @ [NL]) ps)
       @ ''author x'' @ [NL, NL] @ ''msg'' @ [NL]"

text \<open>A repository at \<^verbatim>\<open>/r\<close> with the branch \<^verbatim>\<open>master\<close> at the commit \<^verbatim>\<open>aa1\<close>, whose
  parent is the root commit \<^verbatim>\<open>bb2\<close>; the program is started in \<^verbatim>\<open>/r\<close>.\<close>

definition repo_chain :: env where
  "repo_chain =
     \<lparr>cwd = ''/r'',
      path_exists = (\<lambda>p. p \<in> set [''/r/.git'', ''/r/.git/refs/heads/master'']),
      os_walk = (\<lambda>p. if p = ''/r/.git/refs/heads''
                       then [(''/r/.git/refs/heads'', [], [''master''])] else []),
      read_text = (\<lambda>p. ''aa1'' @ [NL]),
      objects = [(''/r/.git/objects/aa/1'', commit_text [''bb2'']),
                 (''/r/.git/objects/bb/2'', commit_text [])]\<rparr>"

text \<open>The keys of a Graph, each with the \<^verbatim>\<open>commit_hash\<close> of its node.\<close>

definition identities :: "store \<Rightarrow> graph \<Rightarrow> (hash \<times> hash) list" where
  "identities s g = map (\<lambda>(k, a). (k, commit_hash (cell s a))) g"

text \<open>Two root commits \<^verbatim>\<open>r\<close> and \<^verbatim>\<open>t\<close>, stored at the addresses 0 and 1.\<close>

definition two_roots :: store where
  "two_roots = alloc (new_CommitNode ''t'') (alloc (new_CommitNode ''r'') empty_store)"

text \<open>A Graph with a merge: \<^verbatim>\<open>m\<close> has the parents \<^verbatim>\<open>x\<close> and \<^verbatim>\<open>y\<close>, whose parent is the
  root \<^verbatim>\<open>r\<close>; the \<^verbatim>\<open>commit_hash\<close> fields are as \<^verbatim>\<open>make_commit_graph\<close> leaves them.\<close>

definition diamond_store :: store where
  "diamond_store =
     \<lparr>cell = (\<lambda>a. if a = 0 then \<lparr>commit_hash = ''m'', parents = [''x'', ''y''], children = []\<rparr>
                  else if a = 1 then \<lparr>commit_hash = ''m'', parents = [''r''], children = [''m'']\<rparr>
                  else if a = 2 then \<lparr>commit_hash = ''m'', parents = [''r''], children = [''m'']\<rparr>
                  else \<lparr>commit_hash = ''x'', parents = [], children = [''x'', ''y'']\<rparr>),
      next_free = 4\<rparr>"

definition diamond_graph :: graph where
  "diamond_graph = [(''m'', 0), (''x'', 1), (''y'', 2), (''r'', 3)]"

text \<open>A repository whose object store holds a cycle: the parent of \<^verbatim>\<open>aa1\<close> is \<^verbatim>\<open>bb2\<close> and
  the parent of \<^verbatim>\<open>bb2\<close> is \<^verbatim>\<open>aa1\<close>; the branch \<^verbatim>\<open>master\<close> is at \<^verbatim>\<open>aa1\<close>.\<close>

definition repo_cycle :: env where
  "repo_cycle =
     \<lparr>cwd = ''/r'',
      path_exists = (\<lambda>p. p \<in> set [''/r/.git'', ''/r/.git/refs/heads/master'']),
      os_walk = (\<lambda>p. if p = ''/r/.git/refs/heads''
                       then [(''/r/.git/refs/heads'', [], [''master''])] else []),
      read_text = (\<lambda>p. ''aa1'' @ [NL]),
      objects = [(''/r/.git/objects/aa/1'', commit_text [''bb2'']),
                 (''/r/.git/objects/bb/2'', commit_text [''aa1''])]\<rparr>"

text \<open>The text of a root commit whose message is \<^verbatim>\<open>merge parent branch\<close>, and a
  repository whose only commit \<^verbatim>\<open>aa1\<close>, at the branch \<^verbatim>\<open>master\<close>, has this text.\<close>

definition parent_in_message :: string where
  "parent_in_message = ''tree t'' @ [NL] @ ''author x'' @ [NL, NL] @ ''merge parent branch'' @ [NL]"

definition repo_message :: env where
  "repo_message =
     \<lparr>cwd = ''/r'',
      path_exists = (\<lambda>p. p \<in> set [''/r/.git'', ''/r/.git/refs/heads/master'']),
      os_walk = (\<lambda>p. if p = ''/r/.git/refs/heads''
                       then [(''/r/.git/refs/heads'', [], [''master''])] else []),
      read_text = (\<lambda>p. ''aa1'' @ [NL]),
      objects = [(''/r/.git/objects/aa/1'', parent_in_message)]\<rparr>"

section \<open>Properties of the Object Reader\<close>

lemma fold_parents_step:
  "set (fold (parents_step toks) its acc) =
     set acc \<union> {toks ! (i + 1) | i t. (i, t) \<in> set its \<and> t = ''parent'' \<and> i + 2 < length toks}"
proof (induction its arbitrary: acc)
  case Nil
  then show ?case by simp
next
  case (Cons it its)
  obtain i t where it: "it = (i, t)" by (cases it)
  show ?case
    unfolding fold_simps Cons.IH it
    by (auto simp: parents_step_def set_add_def)
qed

lemma parents_of_tokens_set:
  "set (parents_of_tokens toks) =
     {toks ! (i + 1) | i. i + 2 < length toks \<and> toks ! i = ''parent''}"
  unfolding parents_of_tokens_def fold_parents_step
  by (auto simp: in_set_enumerate_eq)

lemma py_split_nonempty: "py_split sep s \<noteq> []"
  by (induction s) (auto split: list.splits)

lemma py_split_append:
  "py_split sep (xs @ sep # ys) = py_split sep xs @ py_split sep ys"
  by (induction xs) (auto split: list.splits simp: py_split_nonempty)

lemma py_split_no_sep: "sep \<notin> set w \<Longrightarrow> py_split sep w = [w]"
  by (induction w) auto

lemma tokens_append_sp: "tokens (xs @ CHR '' '' # ys) = tokens xs @ tokens ys"
  by (simp add: tokens_def replace_nl_def py_split_append)

lemma tokens_append_nl: "tokens (xs @ NL # ys) = tokens xs @ tokens ys"
  by (simp add: tokens_def replace_nl_def py_split_append)

lemma tokens_word: "CHR '' '' \<notin> set w \<Longrightarrow> NL \<notin> set w \<Longrightarrow> tokens w = [w]"
proof -
  assume a: "CHR '' '' \<notin> set w" "NL \<notin> set w"
  then have "replace_nl w = w" unfolding replace_nl_def by (induction w) auto
  with a show ?thesis by (simp add: tokens_def py_split_no_sep)
qed

lemma tokens_nonempty: "tokens s \<noteq> []"
  by (simp add: tokens_def py_split_nonempty)

lemma parent_line_found:
  assumes h: "CHR '' '' \<notin> set h" "NL \<notin> set h"
    and p: "payload = pre @ ''parent '' @ h @ NL # post"
    and pre: "pre = [] \<or> last pre = NL"
  shows "h \<in> set (parents_of_payload payload)"
proof -
  obtain ts where ts: "tokens payload = ts @ [''parent'', h] @ tokens post"
  proof (cases "pre = []")
    case True
    have "tokens payload = tokens (''parent'' @ CHR '' '' # (h @ NL # post))"
      using p True by simp
    also have "\<dots> = tokens ''parent'' @ tokens (h @ NL # post)"
      by (rule tokens_append_sp)
    also have "\<dots> = [] @ [''parent'', h] @ tokens post"
      using h by (simp add: tokens_append_nl tokens_word)
    finally show ?thesis using that by blast
  next
    case False
    with pre obtain pre' where pre': "pre = pre' @ [NL]"
      by (metis append_butlast_last_id)
    have "tokens payload = tokens (pre' @ NL # (''parent'' @ CHR '' '' # (h @ NL # post)))"
      using p pre' by simp
    also have "\<dots> = tokens pre' @ tokens (''parent'' @ CHR '' '' # (h @ NL # post))"
      by (rule tokens_append_nl)
    also have "\<dots> = tokens pre' @ tokens ''parent'' @ tokens (h @ NL # post)"
      by (simp only: tokens_append_sp)
    also have "\<dots> = tokens pre' @ [''parent'', h] @ tokens post"
      using h by (simp add: tokens_append_nl tokens_word)
    finally show ?thesis using that by blast
  qed
  let ?i = "length ts"
  have "tokens payload ! ?i = ''parent''" "tokens payload ! (?i + 1) = h"
    by (simp_all add: ts nth_append)
  moreover have "?i + 2 < length (tokens payload)"
    using tokens_nonempty[of post] by (cases "tokens post") (simp_all add: ts)
  ultimately show ?thesis
    unfolding parents_of_payload_def parents_of_tokens_set by blast
qed

text \<open>What \<^verbatim>\<open>parents\<close> returns, exactly: the tokens of the payload, split at every space
  and new line, that follow a token \<^verbatim>\<open>parent\<close> and are not the last token.\<close>

lemma parents_of_payload_exact:
  "set (parents_of_payload payload) =
     {tokens payload ! (i + 1) | i. i + 2 < length (tokens payload) \<and> tokens payload ! i = ''parent''}"
  unfolding parents_of_payload_def by (rule parents_of_tokens_set)

text \<open>
  Claim C3 says that \<^verbatim>\<open>parents\<close> returns exactly the hashes of the lines that begin with
  \<^verbatim>\<open>parent\<close>. The code does not. For the root commit with the message
  \<^verbatim>\<open>merge parent branch\<close>, no line begins with \<^verbatim>\<open>parent\<close> and \<^verbatim>\<open>parents\<close> returns the word
  \<^verbatim>\<open>branch\<close>; the program then ends on that repository with
  \<^verbatim>\<open>Object for hash branch not found\<close>. For a payload that ends with the line
  \<^verbatim>\<open>parent abc\<close>, the bound \<^verbatim>\<open>i + 1 < len(decompressed_object) - 1\<close> of
  \<^verbatim>\<open>next_in_bounds\<close> leaves the hash \<^verbatim>\<open>abc\<close> out.
\<close>

theorem parents_differs_from_parent_lines:
  "parents_of_payload parent_in_message = [''branch'']
   \<and> parent_line_hashes parent_in_message = []
   \<and> topo_order_commits repo_message
       = Some \<lparr>stdout = [], ended = Some (Exit ''Object for hash branch not found'' 1)\<rparr>
   \<and> parents_of_payload (''tree t'' @ [NL] @ ''parent abc'') = []
   \<and> parent_line_hashes (''tree t'' @ [NL] @ ''parent abc'') = [''abc'']"
proof -
  have "parents_of_payload parent_in_message = [''branch'']"
    by code_simp
  moreover have "parent_line_hashes parent_in_message = []"
    by code_simp
  moreover have "topo_order_commits repo_message
       = Some \<lparr>stdout = [], ended = Some (Exit ''Object for hash branch not found'' 1)\<rparr>"
    by code_simp
  moreover have "parents_of_payload (''tree t'' @ [NL] @ ''parent abc'') = []"
    by code_simp
  moreover have "parent_line_hashes (''tree t'' @ [NL] @ ''parent abc'') = [''abc'']"
    by code_simp
  ultimately show ?thesis by simp
qed

section \<open>Properties of the Graph Builder, the Branch Enumerator and the fatal ends\<close>

text \<open>
  Claim C4 says that the node stored under a key \<open>h\<close> has \<^verbatim>\<open>commit_hash == h\<close>. In the
  repository \<open>repo_chain\<close> the node of the parent \<^verbatim>\<open>bb2\<close> is first met as a parent of
  \<^verbatim>\<open>aa1\<close> and is built as \<^verbatim>\<open>CommitNode(curr_hash)\<close>: its \<^verbatim>\<open>commit_hash\<close> is \<^verbatim>\<open>aa1\<close>.
\<close>

theorem make_commit_graph_parent_node_hash:
  "map_sum id (\<lambda>(s, g). identities s g) (make_commit_graph repo_chain [(''aa1'', [''master''])])
     = Inr [(''aa1'', ''aa1''), (''bb2'', ''aa1'')]"
  by code_simp

text \<open>
  Claim C5 says that the branch name is the path of the reference file relative to
  \<^verbatim>\<open>refs/heads\<close>, whatever the working directory. Started in \<^verbatim>\<open>/r\<close> the program names the
  branch \<^verbatim>\<open>master\<close>; started in the subdirectory \<^verbatim>\<open>/r/sub\<close> it finds the same repository
  and the same file, and names the branch \<^verbatim>\<open>er\<close>.
\<close>

theorem get_local_branches_cwd_dependent:
  "get_local_branches repo_chain ''/r/.git'' = Inr [(''aa1'', [''master''])]
   \<and> find_git_directory (repo_chain\<lparr>cwd := ''/r/sub''\<rparr>) = Some (Inr ''/r/.git'')
   \<and> get_local_branches (repo_chain\<lparr>cwd := ''/r/sub''\<rparr>) ''/r/.git'' = Inr [(''aa1'', [''er''])]"
proof -
  have "get_local_branches repo_chain ''/r/.git'' = Inr [(''aa1'', [''master''])]"
    by code_simp
  moreover have "find_git_directory (repo_chain\<lparr>cwd := ''/r/sub''\<rparr>) = Some (Inr ''/r/.git'')"
    by code_simp
  moreover have "get_local_branches (repo_chain\<lparr>cwd := ''/r/sub''\<rparr>) ''/r/.git''
      = Inr [(''aa1'', [''er''])]"
    by code_simp
  ultimately show ?thesis by simp
qed

text \<open>
  Claim C8 says that every fatal condition writes a message to the error stream. When
  the reference file \<^verbatim>\<open>master\<close> that \<^verbatim>\<open>os.walk\<close> lists does not exist when it is read, the
  program ends with exit status 1 and has written nothing.
\<close>

theorem missing_ref_file_silent_exit:
  "topo_order_commits (repo_chain\<lparr>path_exists := (\<lambda>p. p = ''/r/.git'')\<rparr>)
     = Some \<lparr>stdout = [], ended = Some (Exit [] 1)\<rparr>"
  by code_simp

section \<open>Properties of the Printer\<close>

lemma print_loop_prefix:
  "\<forall>k \<in> set pre. map_of g k \<noteq> None \<Longrightarrow> xs \<noteq> [] \<Longrightarrow>
     \<exists>out1 d. print_loop s g b d0 (pre @ xs)
        = (out1 @ fst (print_loop s g b d xs), snd (print_loop s g b d xs))"
proof (induction pre arbitrary: d0)
  case Nil
  show ?case by (rule exI[of _ "[]"], rule exI[of _ d0]) simp
next
  case (Cons k pre)
  from Cons.prems obtain a where a: "map_of g k = Some a" by auto
  obtain nxt tl where rest: "pre @ xs = nxt # tl"
    using Cons.prems(2) by (cases "pre @ xs") auto
  let ?start = "if d0 then [''='' @ py_join '' '' (children (cell s a))] else []"
  show ?case
  proof (cases "nxt \<notin> set (parents (cell s a))")
    case True
    from Cons.IH[of True] Cons.prems obtain out1 d where
      ih: "print_loop s g b True (pre @ xs)
        = (out1 @ fst (print_loop s g b d xs), snd (print_loop s g b d xs))"
      by auto
    have "print_loop s g b d0 ((k # pre) @ xs)
        = ((?start @ [commit_line b k, py_join '' '' (parents (cell s a)) @ ''='' @ [NL]] @ out1)
             @ fst (print_loop s g b d xs), snd (print_loop s g b d xs))"
      using a True ih rest by (simp add: Let_def)
    then show ?thesis by blast
  next
    case False
    from Cons.IH[of False] Cons.prems obtain out1 d where
      ih: "print_loop s g b False (pre @ xs)
        = (out1 @ fst (print_loop s g b d xs), snd (print_loop s g b d xs))"
      by auto
    have "print_loop s g b d0 ((k # pre) @ xs)
        = ((?start @ [commit_line b k] @ out1)
             @ fst (print_loop s g b d xs), snd (print_loop s g b d xs))"
      using a False ih rest by (simp add: Let_def)
    then show ?thesis by blast
  qed
qed

lemma print_loop_head:
  assumes "map_of g h = Some a"
  shows "\<exists>pre post. fst (print_loop s g b d (h # rest)) = pre @ commit_line b h # post"
proof -
  let ?start = "if d then [''='' @ py_join '' '' (children (cell s a))] else []"
  show ?thesis
  proof (cases rest)
    case Nil
    then have "fst (print_loop s g b d (h # rest)) = ?start @ commit_line b h # []"
      using assms by simp
    then show ?thesis by blast
  next
    case (Cons nxt tl)
    show ?thesis
    proof (cases "nxt \<notin> set (parents (cell s a))")
      case True
      have "fst (print_loop s g b d (h # rest))
          = ?start @ commit_line b h # ((py_join '' '' (parents (cell s a)) @ ''='' @ [NL])
              # fst (print_loop s g b True rest))"
        using assms Cons True by (simp add: Let_def split: prod.splits)
      then show ?thesis by blast
    next
      case False
      have "fst (print_loop s g b d (h # rest))
          = ?start @ commit_line b h # fst (print_loop s g b False rest)"
        using assms Cons False by (simp add: Let_def split: prod.splits)
      then show ?thesis by blast
    qed
  qed
qed

lemma print_loop_root:
  assumes "map_of g h = Some a" "parents (cell s a) = []"
  shows "\<exists>pre post. fst (print_loop s g b d (h # nxt # rest))
           = pre @ [commit_line b h, ''='' @ [NL]] @ post"
proof -
  let ?start = "if d then [''='' @ py_join '' '' (children (cell s a))] else []"
  have "fst (print_loop s g b d (h # nxt # rest))
          = ?start @ [commit_line b h, ''='' @ [NL]] @ fst (print_loop s g b True (nxt # rest))"
    using assms by (simp add: Let_def split: prod.splits)
  then show ?thesis by blast
qed

lemma sort_set_eq:
  fixes xs ys :: "string list"
  assumes "distinct xs" "distinct ys" "set xs = set ys"
  shows "sort xs = sort ys"
  by (rule sorted_distinct_set_unique) (simp_all add: assms)

lemma commit_line_same_sets:
  assumes "rel_option (\<lambda>xs ys. distinct xs \<and> distinct ys \<and> set xs = set ys)
             (map_of b k) (map_of b' k)"
  shows "commit_line b' k = commit_line b k"
  using assms
  by (cases "map_of b k"; cases "map_of b' k") (auto simp: commit_line_def dest: sort_set_eq)

lemma print_loop_same_lines:
  assumes "\<And>k. commit_line b' k = commit_line b k"
  shows "print_loop s g b' d xs = print_loop s g b d xs"
proof (induction xs arbitrary: d)
  case Nil
  show ?case by simp
next
  case (Cons k xs)
  show ?case
    unfolding print_loop.simps Cons.IH assms ..
qed

lemma stdout_text_append: "stdout_text (xs @ ys) = stdout_text xs @ stdout_text ys"
  by (simp add: stdout_text_def)

text \<open>
  Claim C9: for a commit \<open>h\<close> of the ordered list that has an entry in the BranchMap
  (the commits before it and \<open>h\<close> itself being keys of the graph), the printer prints
  the line made of the hash, one space, and the branch names sorted and joined by
  single spaces; and two BranchMaps that hold the same sets of names, whatever the
  order in which the names and the hashes were entered, give the same output.
\<close>

theorem commit_line_sorted_branch_names:
  assumes "ordered = pre @ h # rest"
    and "\<forall>k \<in> set pre. map_of g k \<noteq> None"
    and "map_of g h \<noteq> None"
    and "map_of b h = Some names"
    and "\<forall>k. rel_option (\<lambda>xs ys. distinct xs \<and> distinct ys \<and> set xs = set ys)
               (map_of b k) (map_of b' k)"
  shows "(\<exists>out1 out2. fst (print_topo_sort s g ordered b)
            = out1 @ [h @ '' '' @ py_join '' '' (sort names)] @ out2)
       \<and> print_topo_sort s g ordered b' = print_topo_sort s g ordered b"
proof
  from assms(3) obtain a where a: "map_of g h = Some a" by auto
  from print_loop_prefix[OF assms(2), of "h # rest" s b False] obtain out1 d where
    p: "print_loop s g b False (pre @ h # rest)
        = (out1 @ fst (print_loop s g b d (h # rest)), snd (print_loop s g b d (h # rest)))"
    by auto
  from print_loop_head[OF a, of s b d rest] obtain pr post where
    h: "fst (print_loop s g b d (h # rest)) = pr @ commit_line b h # post" by blast
  have "fst (print_topo_sort s g ordered b) = (out1 @ pr) @ [commit_line b h] @ post"
    unfolding print_topo_sort_def assms(1) p using h by simp
  moreover have "commit_line b h = h @ '' '' @ py_join '' '' (sort names)"
    using assms(4) by (simp add: commit_line_def)
  ultimately show "\<exists>out1 out2. fst (print_topo_sort s g ordered b)
            = out1 @ [h @ '' '' @ py_join '' '' (sort names)] @ out2"
    by metis
next
  have "commit_line b' k = commit_line b k" for k
    using assms(5) by (intro commit_line_same_sets) simp
  then show "print_topo_sort s g ordered b' = print_topo_sort s g ordered b"
    unfolding print_topo_sort_def by (rule print_loop_same_lines)
qed

theorem commit_line_sorted_branch_names_witness:
  "(\<exists>out1 out2. fst (print_topo_sort two_roots [(''r'', 0), (''t'', 1)] [''r'', ''t'']
                        [(''t'', [''y'', ''x''])])
        = out1 @ [''t x y''] @ out2)
   \<and> print_topo_sort two_roots [(''r'', 0), (''t'', 1)] [''r'', ''t''] [(''t'', [''x'', ''y''])]
     = print_topo_sort two_roots [(''r'', 0), (''t'', 1)] [''r'', ''t''] [(''t'', [''y'', ''x''])]"
proof -
  have srt: "sort [''y'', ''x''] = [''x'', ''y'']" by code_simp
  have rel: "\<forall>k. rel_option (\<lambda>xs ys. distinct xs \<and> distinct ys \<and> set xs = set ys)
               (map_of [(''t'', [''y'', ''x''])] k) (map_of [(''t'', [''x'', ''y''])] k)"
    by auto
  from commit_line_sorted_branch_names[of "[''r'', ''t'']" "[''r'']" "''t''" "[]"
      "[(''r'', 0), (''t'', 1)]" "[(''t'', [''y'', ''x''])]" "[''y'', ''x'']"
      "[(''t'', [''x'', ''y''])]" two_roots, OF _ _ _ _ rel]
  show ?thesis by (simp add: srt)
qed

text \<open>
  Claim C10: when a root commit \<open>h\<close> (no parents) is printed and another commit follows it
  in the ordered list, the printer prints after the line of \<open>h\<close> the separator \<^verbatim>\<open>=\<close> with
  nothing before it, followed by an empty line.
\<close>

theorem root_commit_discontinuity:
  assumes "ordered = pre @ h # nxt # rest"
    and "\<forall>k \<in> set pre. map_of g k \<noteq> None"
    and "map_of g h = Some a"
    and "parents (cell s a) = []"
  shows "\<exists>out1 out2.
           fst (print_topo_sort s g ordered b) = out1 @ [commit_line b h, ''='' @ [NL]] @ out2
         \<and> stdout_text (fst (print_topo_sort s g ordered b))
             = stdout_text out1 @ commit_line b h @ [NL] @ ''='' @ [NL] @ [NL] @ stdout_text out2"
proof -
  from print_loop_prefix[OF assms(2), of "h # nxt # rest" s b False] obtain out1 d where
    p: "print_loop s g b False (pre @ h # nxt # rest)
        = (out1 @ fst (print_loop s g b d (h # nxt # rest)),
           snd (print_loop s g b d (h # nxt # rest)))"
    by auto
  from print_loop_root[OF assms(3,4), of b d nxt rest] obtain pr post where
    h: "fst (print_loop s g b d (h # nxt # rest)) = pr @ [commit_line b h, ''='' @ [NL]] @ post"
    by blast
  have e: "fst (print_topo_sort s g ordered b)
      = (out1 @ pr) @ [commit_line b h, ''='' @ [NL]] @ post"
    unfolding print_topo_sort_def assms(1) p using h by simp
  have "stdout_text (fst (print_topo_sort s g ordered b))
      = stdout_text (out1 @ pr) @ commit_line b h @ [NL] @ ''='' @ [NL] @ [NL] @ stdout_text post"
    unfolding e by (simp add: stdout_text_def)
  with e show ?thesis by blast
qed

theorem root_commit_discontinuity_witness:
  "\<exists>out1 out2.
      fst (print_topo_sort two_roots [(''r'', 0), (''t'', 1)] [''r'', ''t''] [])
        = out1 @ [''r'', ''='' @ [NL]] @ out2
    \<and> stdout_text (fst (print_topo_sort two_roots [(''r'', 0), (''t'', 1)] [''r'', ''t''] []))
        = stdout_text out1 @ ''r'' @ [NL] @ ''='' @ [NL] @ [NL] @ stdout_text out2"
proof -
  have p: "parents (cell two_roots 0) = []"
    by (simp add: two_roots_def alloc_def empty_store_def new_CommitNode_def)
  from root_commit_discontinuity[of "[''r'', ''t'']" "[]" "''r''" "''t''" "[]"
      "[(''r'', 0), (''t'', 1)]" 0 two_roots "[]", OF _ _ _ p]
  show ?thesis by (simp add: commit_line_def)
qed

section \<open>The sorter leaves the objects of its caller alone\<close>

lemma cell_put: "cell (put a n s) b = (if b = a then n else cell s b)"
  by (simp add: put_def)

lemma next_free_put: "next_free (put a n s) = next_free s"
  by (simp add: put_def)

lemma cell_alloc: "cell (alloc n s) b = (if b = next_free s then n else cell s b)"
  by (simp add: alloc_def)

lemma next_free_alloc: "next_free (alloc n s) = Suc (next_free s)"
  by (simp add: alloc_def)

lemma deepcopy_items_frame:
  "deepcopy_items memo g s = (s', cg) \<Longrightarrow> n0 \<le> next_free s \<Longrightarrow>
   \<forall>(a, a') \<in> set memo. n0 \<le> a' \<Longrightarrow>
     (\<forall>a < n0. cell s' a = cell s a) \<and> n0 \<le> next_free s' \<and> (\<forall>(k, a') \<in> set cg. n0 \<le> a')"
proof (induction g arbitrary: memo s s' cg)
  case Nil
  then show ?case by simp
next
  case (Cons ka g)
  obtain k a where ka: "ka = (k, a)" by (cases ka)
  show ?case
  proof (cases "map_of memo a")
    case (Some a')
    obtain s1 g1 where r: "deepcopy_items memo g s = (s1, g1)" by (cases "deepcopy_items memo g s")
    with Cons.prems(1) ka Some have e: "s' = s1" "cg = (k, a') # g1" by simp_all
    from map_of_SomeD[OF Some] Cons.prems(3) have "n0 \<le> a'" by auto
    with Cons.IH[OF r Cons.prems(2,3)] e show ?thesis by simp
  next
    case None
    let ?s = "alloc (cell s a) s"
    let ?m = "(a, next_free s) # memo"
    obtain s1 g1 where r: "deepcopy_items ?m g ?s = (s1, g1)" by (cases "deepcopy_items ?m g ?s")
    with Cons.prems(1) ka None have e: "s' = s1" "cg = (k, next_free s) # g1" by simp_all
    have "n0 \<le> next_free ?s" using Cons.prems(2) by (simp add: next_free_alloc)
    moreover have "\<forall>(a, a') \<in> set ?m. n0 \<le> a'" using Cons.prems(2,3) by simp
    ultimately have ih: "(\<forall>a < n0. cell s1 a = cell ?s a) \<and> n0 \<le> next_free s1
        \<and> (\<forall>(k, a') \<in> set g1. n0 \<le> a')"
      by (rule Cons.IH[OF r])
    have "cell ?s b = cell s b" if "b < n0" for b
      using that Cons.prems(2) by (simp add: cell_alloc)
    with ih e Cons.prems(2) show ?thesis by simp
  qed
qed

lemma remove_edges_frame:
  "remove_edges cg c ps s q = (s', r) \<Longrightarrow> \<forall>(k, a') \<in> set cg. n0 \<le> a' \<Longrightarrow>
     b < n0 \<Longrightarrow> cell s' b = cell s b"
proof (induction ps arbitrary: s q)
  case Nil
  then show ?case by simp
next
  case (Cons p ps)
  show ?case
  proof (cases "map_of cg c")
    case None
    with Cons.prems show ?thesis by simp
  next
    case (Some ca)
    from map_of_SomeD[OF Some] Cons.prems(2,3) have ca: "b \<noteq> ca" by auto
    show ?thesis
    proof (cases "set_remove p (parents (cell s ca))")
      case (Inl f)
      with Cons.prems Some show ?thesis by simp
    next
      case (Inr ps')
      let ?s1 = "put ca ((cell s ca)\<lparr>parents := ps'\<rparr>) s"
      have s1: "cell ?s1 b = cell s b" using ca by (simp add: cell_put)
      show ?thesis
      proof (cases "map_of cg p")
        case None
        with Cons.prems Some Inr s1 show ?thesis by (simp add: Let_def)
      next
        case pa: (Some pa)
        from map_of_SomeD[OF pa] Cons.prems(2,3) have pb: "b \<noteq> pa" by auto
        show ?thesis
        proof (cases "set_remove c (children (cell ?s1 pa))")
          case (Inl f)
          with Cons.prems Some Inr pa s1 show ?thesis by (simp add: Let_def)
        next
          case cs: (Inr cs')
          let ?s2 = "put pa ((cell ?s1 pa)\<lparr>children := cs'\<rparr>) ?s1"
          let ?q = "if length (children (cell ?s2 pa)) = 0 then q @ [p] else q"
          have "remove_edges cg c ps ?s2 ?q = (s', r)"
            using Cons.prems(1) Some Inr pa cs by (simp add: Let_def)
          from Cons.IH[OF this Cons.prems(2,3)] have "cell s' b = cell ?s2 b" .
          also have "\<dots> = cell ?s1 b" using pb by (simp add: cell_put)
          finally show ?thesis using s1 by simp
        qed
      qed
    qed
  qed
qed

lemma sort_loop_frame:
  "sort_loop cg s q res = (s', r) \<Longrightarrow> \<forall>(k, a') \<in> set cg. n0 \<le> a' \<Longrightarrow>
     b < n0 \<Longrightarrow> cell s' b = cell s b"
proof (induction cg s q res rule: sort_loop.induct)
  case (1 cg s queue result)
  show ?case
  proof (cases queue)
    case Nil
    with "1.prems" show ?thesis by simp
  next
    case (Cons c rest)
    show ?thesis
    proof (cases "map_of cg c")
      case None
      with "1.prems" Cons show ?thesis by simp
    next
      case (Some ca)
      obtain s1 r1 where re: "remove_edges cg c (parents (cell s ca)) s rest = (s1, r1)"
        by (cases "remove_edges cg c (parents (cell s ca)) s rest")
      have f1: "cell s1 b = cell s b"
        by (rule remove_edges_frame[OF re "1.prems"(2,3)])
      show ?thesis
      proof (cases r1)
        case (Inl f)
        with "1.prems"(1) Cons Some re f1 show ?thesis by simp
      next
        case (Inr q')
        have "sort_loop cg s1 q' (result @ [c]) = (s', r)"
          using "1.prems"(1) Cons Some re Inr by simp
        from "1.IH"[OF Cons Some re[symmetric] Inr this "1.prems"(2,3)] f1
        show ?thesis by simp
      qed
    qed
  qed
qed

lemma topo_sort_cells:
  "a < next_free s \<Longrightarrow> cell (fst (topo_sort s g)) a = cell s a"
proof -
  assume a: "a < next_free s"
  obtain s1 cg where d: "deepcopy s g = (s1, cg)" by (cases "deepcopy s g")
  obtain s2 r where l: "sort_loop cg s1 (childless s1 cg) [] = (s2, r)"
    by (cases "sort_loop cg s1 (childless s1 cg) []")
  from d have "deepcopy_items [] g s = (s1, cg)" by (simp add: deepcopy_def)
  from deepcopy_items_frame[OF this, of "next_free s"]
  have f: "\<forall>a < next_free s. cell s1 a = cell s a" "\<forall>(k, a') \<in> set cg. next_free s \<le> a'"
    by simp_all
  have "cell s2 a = cell s1 a" by (rule sort_loop_frame[OF l f(2) a])
  moreover have "fst (topo_sort s g) = s2"
    using d l by (simp add: topo_sort_def split: sum.splits)
  ultimately show ?thesis using f(1) a by simp
qed

section \<open>Properties of the Topological Sorter\<close>

subsection \<open>Positions in a list\<close>

lemma index_of_less: "index_of x xs < length xs \<longleftrightarrow> x \<in> set xs"
  by (induction xs) (auto simp: index_of_def)

lemma index_of_append_in: "x \<in> set xs \<Longrightarrow> index_of x (xs @ ys) = index_of x xs"
  by (simp add: index_of_def takeWhile_append1)

lemma index_of_append_last: "x \<notin> set xs \<Longrightarrow> index_of x (xs @ [x]) = length xs"
  by (induction xs) (auto simp: index_of_def)

subsection \<open>Well-formed graphs, entry by entry\<close>

lemma map_of_node_items: "map_of (node_items s g) k = map_option (cell s) (map_of g k)"
  unfolding node_items_def by (induction g) auto

lemma in_node_items: "(k, n) \<in> set (node_items s g) \<longleftrightarrow> (\<exists>a. (k, a) \<in> set g \<and> n = cell s a)"
  unfolding node_items_def by auto

lemma keys_node_items: "map fst (node_items s g) = map fst g"
  unfolding node_items_def by (induction g) auto

lemma in_edges: "(c, p) \<in> edges s g \<longleftrightarrow> (\<exists>a. (c, a) \<in> set g \<and> p \<in> set (parents (cell s a)))"
  unfolding edges_def edges_of_def node_items_def by (induction g) auto

lemma finite_edges: "finite (edges s g)"
  unfolding edges_def edges_of_def by (rule finite_set)

lemma wf_graph_keys: "wf_graph s g \<Longrightarrow> distinct (map fst g)"
  by (simp add: wf_graph_def wf_items_def keys_node_items)

lemma wf_graph_addrs: "wf_graph s g \<Longrightarrow> distinct (map snd g)"
  by (simp add: wf_graph_def)

lemma wf_graph_lookup: "wf_graph s g \<Longrightarrow> (k, a) \<in> set g \<Longrightarrow> map_of g k = Some a"
  by (simp add: wf_graph_keys)

lemma wf_graph_same:
  assumes "wf_graph s g" "(k, a) \<in> set g" "(k', a') \<in> set g"
  shows "(a = a') = (k = k')"
proof
  assume e: "a = a'"
  from wf_graph_addrs[OF assms(1)] have "inj_on snd (set g)" by (simp add: distinct_map)
  from inj_onD[OF this _ assms(2,3)] e show "k = k'" by simp
next
  assume e: "k = k'"
  from wf_graph_keys[OF assms(1)] have "inj_on fst (set g)" by (simp add: distinct_map)
  from inj_onD[OF this _ assms(2,3)] e show "a = a'" by simp
qed

lemma wf_graph_distinct:
  assumes "wf_graph s g" "(k, a) \<in> set g"
  shows "distinct (parents (cell s a))" "distinct (children (cell s a))"
proof -
  from assms(2) have "(k, cell s a) \<in> set (node_items s g)" by (auto simp: in_node_items)
  with assms(1) show "distinct (parents (cell s a))" "distinct (children (cell s a))"
    unfolding wf_graph_def wf_items_def by blast+
qed

lemma wf_graph_parent:
  assumes "wf_graph s g" "(k, a) \<in> set g" "p \<in> set (parents (cell s a))"
  shows "\<exists>pa. (p, pa) \<in> set g \<and> k \<in> set (children (cell s pa))"
proof -
  from assms(2) have "(k, cell s a) \<in> set (node_items s g)" by (auto simp: in_node_items)
  with assms(1,3) have "case map_of (node_items s g) p of None \<Rightarrow> False
     | Some pn \<Rightarrow> k \<in> set (children pn)"
    unfolding wf_graph_def wf_items_def by blast
  then show ?thesis
    by (auto simp: map_of_node_items split: option.splits dest: map_of_SomeD)
qed

lemma wf_graph_child:
  assumes "wf_graph s g" "(k, a) \<in> set g" "c \<in> set (children (cell s a))"
  shows "\<exists>ca. (c, ca) \<in> set g \<and> k \<in> set (parents (cell s ca))"
proof -
  from assms(2) have "(k, cell s a) \<in> set (node_items s g)" by (auto simp: in_node_items)
  with assms(1,3) have "case map_of (node_items s g) c of None \<Rightarrow> False
     | Some cn \<Rightarrow> k \<in> set (parents cn)"
    unfolding wf_graph_def wf_items_def by blast
  then show ?thesis
    by (auto simp: map_of_node_items split: option.splits dest: map_of_SomeD)
qed

subsection \<open>The copy\<close>

lemma deepcopy_items_fresh:
  "deepcopy_items memo g s = (s', cg) \<Longrightarrow> distinct (map snd g) \<Longrightarrow>
   \<forall>(k, a) \<in> set g. a < next_free s \<and> a \<notin> fst ` set memo \<Longrightarrow>
     map fst cg = map fst g \<and> distinct (map snd cg)
     \<and> (\<forall>(k, a') \<in> set cg. next_free s \<le> a' \<and> a' < next_free s')
     \<and> next_free s \<le> next_free s'
     \<and> (\<forall>a < next_free s. cell s' a = cell s a)
     \<and> node_items s' cg = node_items s g"
proof (induction g arbitrary: memo s s' cg)
  case Nil
  then show ?case by (simp add: node_items_def)
next
  case (Cons ka g)
  obtain k a where ka: "ka = (k, a)" by (cases ka)
  from Cons.prems(3) ka have a: "a < next_free s" "a \<notin> fst ` set memo" by auto
  then have None: "map_of memo a = None" by (simp add: map_of_eq_None_iff)
  let ?s = "alloc (cell s a) s"
  let ?m = "(a, next_free s) # memo"
  obtain s1 g1 where r: "deepcopy_items ?m g ?s = (s1, g1)" by (cases "deepcopy_items ?m g ?s")
  with Cons.prems(1) ka None have e: "s' = s1" "cg = (k, next_free s) # g1" by simp_all
  have d: "distinct (map snd g)" using Cons.prems(2) by simp
  have pre: "\<forall>(k', a') \<in> set g. a' < next_free ?s \<and> a' \<notin> fst ` set ?m"
  proof (clarify, intro conjI)
    fix k' a' assume m: "(k', a') \<in> set g"
    with Cons.prems(3) have "a' < next_free s" "a' \<notin> fst ` set memo" by auto
    moreover from m Cons.prems(2) ka have "a' \<noteq> a" by force
    ultimately show "a' < next_free ?s" "a' \<notin> fst ` set ?m"
      by (simp_all add: next_free_alloc)
  qed
  note ih = Cons.IH[OF r d pre]
  have ih1: "map fst g1 = map fst g" using ih by blast
  have ih2: "distinct (map snd g1)" using ih by blast
  have ih3: "\<forall>(k, a') \<in> set g1. Suc (next_free s) \<le> a' \<and> a' < next_free s1"
    using ih by (simp add: next_free_alloc)
  have ih3': "Suc (next_free s) \<le> next_free s1"
    using ih by (simp add: next_free_alloc)
  have ih4: "\<forall>b < Suc (next_free s). cell s1 b = cell ?s b"
    using ih by (simp add: next_free_alloc)
  have ih5: "node_items s1 g1 = node_items ?s g" using ih by blast
  have n: "node_items ?s g = node_items s g"
    unfolding node_items_def using Cons.prems(3) by (auto simp: cell_alloc)
  have h: "cell s1 (next_free s) = cell s a"
    using ih4 by (simp add: cell_alloc)
  have c: "\<forall>b < next_free s. cell s1 b = cell s b"
    using ih4 by (simp add: cell_alloc)
  have "map fst cg = map fst (ka # g)" using e ka ih1 by simp
  moreover have "distinct (map snd cg)"
    unfolding e using ih2 ih3 by fastforce
  moreover have "\<forall>(k, a') \<in> set cg. next_free s \<le> a' \<and> a' < next_free s'"
    unfolding e using ih3 ih3' by fastforce
  moreover have "next_free s \<le> next_free s'" using e ih3' by simp
  moreover have "\<forall>b < next_free s. cell s' b = cell s b" using e c by simp
  moreover have "node_items s' cg = node_items s (ka # g)"
    using e ka ih5 n h by (simp add: node_items_def)
  ultimately show ?case by blast
qed

lemma deepcopy_wf:
  assumes "wf_graph s g" "deepcopy s g = (s1, cg)"
  shows "wf_graph s1 cg" "node_items s1 cg = node_items s g" "length cg = length g"
proof -
  from assms(2) have d: "deepcopy_items [] g s = (s1, cg)" by (simp add: deepcopy_def)
  have "\<forall>(k, a) \<in> set g. a < next_free s \<and> a \<notin> fst ` set []"
    using assms(1) by (auto simp: wf_graph_def)
  note f = deepcopy_items_fresh[OF d wf_graph_addrs[OF assms(1)] this]
  have f1: "map fst cg = map fst g" using f by blast
  have f2: "distinct (map snd cg)" using f by blast
  have f3: "\<forall>(k, a') \<in> set cg. next_free s \<le> a' \<and> a' < next_free s1" using f by blast
  show f4: "node_items s1 cg = node_items s g" using f by blast
  from f1 have "length (map fst cg) = length (map fst g)" by simp
  then show "length cg = length g" by simp
  from f3 have "\<forall>(k, a) \<in> set cg. a < next_free s1" by blast
  with f2 show "wf_graph s1 cg" using assms(1) f4 by (simp add: wf_graph_def)
qed

subsection \<open>The inner loop\<close>

lemma loop_order_snoc:
  assumes o: "loop_order cg s0 l" and p: "p \<notin> set l" "p \<in> fst ` set cg"
    and ch: "\<And>x. (x, p) \<in> edges s0 cg \<Longrightarrow> x \<in> set l"
  shows "loop_order cg s0 (l @ [p])"
  unfolding loop_order_def
proof (intro conjI ballI)
  show "distinct (l @ [p])" using o p(1) by (simp add: loop_order_def)
  show "set (l @ [p]) \<subseteq> fst ` set cg" using o p(2) by (simp add: loop_order_def)
next
  fix e assume e: "e \<in> edges s0 cg"
  obtain x y where xy: "e = (x, y)" by (cases e)
  have "index_of x (l @ [p]) < index_of y (l @ [p])" if y: "y \<in> set (l @ [p])"
  proof (cases "y \<in> set l")
    case True
    with o e xy have lt: "index_of x l < index_of y l" by (auto simp: loop_order_def)
    also have "index_of y l < length l" using True by (simp add: index_of_less)
    finally have "x \<in> set l" by (simp add: index_of_less)
    with True lt show ?thesis by (simp add: index_of_append_in)
  next
    case False
    with y have yp: "y = p" by simp
    with e xy ch have x: "x \<in> set l" by blast
    then have "index_of x (l @ [p]) = index_of x l" by (simp add: index_of_append_in)
    also have "\<dots> < length l" using x by (simp add: index_of_less)
    also have "length l = index_of y (l @ [p])" using yp p(1) by (simp add: index_of_append_last)
    finally show ?thesis .
  qed
  then show "case e of (x, y) \<Rightarrow> y \<in> set (l @ [p]) \<longrightarrow> index_of x (l @ [p]) < index_of y (l @ [p])"
    unfolding xy by blast
qed

lemma remove_edges_step:
  assumes wf: "wf_graph s0 cg" and c: "(c, ca) \<in> set cg"
    and par0: "parents (cell s0 ca) = dn @ p # ps"
    and ip: "inner_parents cg s0 s c (p # ps) res"
    and ic: "inner_children cg s0 s c dn res"
    and qu: "loop_queue cg s (res @ c # q)"
    and ord: "loop_order cg s0 (res @ c # q)"
  shows "\<exists>s2 q1. remove_edges cg c (p # ps) s q = remove_edges cg c ps s2 q1
           \<and> inner_parents cg s0 s2 c ps res
           \<and> inner_children cg s0 s2 c (dn @ [p]) res
           \<and> loop_queue cg s2 (res @ c # q1)
           \<and> loop_order cg s0 (res @ c # q1)"
proof -
  from ord have cres: "c \<notin> set res" by (simp add: loop_order_def)
  from par0 have pin0: "p \<in> set (parents (cell s0 ca))" by simp
  from wf_graph_distinct(1)[OF wf c] par0 have pdn: "p \<notin> set dn" by simp
  from wf_graph_parent[OF wf c pin0] obtain pa where
    pa: "(p, pa) \<in> set cg" and cch0: "c \<in> set (children (cell s0 pa))" by blast
  note lc = wf_graph_lookup[OF wf c]
  note lp = wf_graph_lookup[OF wf pa]
  from ip c have cur_par: "parents (cell s ca) = p # ps" by (auto simp: inner_parents_def)
  from ic pa have chp: "distinct (children (cell s pa))"
    "set (children (cell s pa)) = set (children (cell s0 pa)) - set res
        - (if p \<in> set dn then {c} else {})"
    by (auto simp: inner_children_def)
  with cch0 cres pdn have cin: "c \<in> set (children (cell s pa))" by simp
  from qu c have cempty: "children (cell s ca) = []" by (auto simp: loop_queue_def)
  have pc: "p \<noteq> c"
  proof
    assume "p = c"
    with wf_graph_same[OF wf pa c] have "pa = ca" by simp
    with cin cempty show False by simp
  qed
  with wf_graph_same[OF wf pa c] have pa_ca: "pa \<noteq> ca" by simp
  define s1 where "s1 = put ca ((cell s ca)\<lparr>parents := ps\<rparr>) s"
  define s2 where
    "s2 = put pa ((cell s1 pa)\<lparr>children := remove1 c (children (cell s1 pa))\<rparr>) s1"
  define q1 where "q1 = (if length (children (cell s2 pa)) = 0 then q @ [p] else q)"
  have s1pa: "cell s1 pa = cell s pa" using pa_ca by (simp add: s1_def cell_put)
  have unfold: "remove_edges cg c (p # ps) s q = remove_edges cg c ps s2 q1"
    unfolding s2_def q1_def s1_def using lc lp cur_par cin pa_ca
    by (simp add: set_remove_def Let_def cell_put)
  have at_p: "cell s2 pa = (cell s pa)\<lparr>children := remove1 c (children (cell s pa))\<rparr>"
    by (simp add: s2_def cell_put s1pa)
  have at_c: "cell s2 ca = (cell s ca)\<lparr>parents := ps\<rparr>"
    using pa_ca by (simp add: s2_def s1_def cell_put)
  have other: "cell s2 a = cell s a" if "(k, a) \<in> set cg" "k \<noteq> p" "k \<noteq> c" for k a
  proof -
    from wf_graph_same[OF wf that(1) pa] that(2) have "a \<noteq> pa" by simp
    moreover from wf_graph_same[OF wf that(1) c] that(3) have "a \<noteq> ca" by simp
    ultimately show ?thesis by (simp add: s2_def s1_def cell_put)
  qed
  have addr_p: "a = pa" if "(p, a) \<in> set cg" for a
    using wf_graph_same[OF wf that pa] by simp
  have addr_c: "a = ca" if "(c, a) \<in> set cg" for a
    using wf_graph_same[OF wf that c] by simp
  have p_notin: "p \<notin> set (res @ c # q)"
  proof -
    from cin have "children (cell s pa) \<noteq> []" by auto
    with qu pa show ?thesis by (auto simp: loop_queue_def)
  qed
  have P: "inner_parents cg s0 s2 c ps res"
    unfolding inner_parents_def
  proof (clarify)
    fix k a assume m: "(k, a) \<in> set cg"
    from ip m have old: "parents (cell s a) =
        (if k = c then p # ps else if k \<in> set res then [] else parents (cell s0 a))"
      by (auto simp: inner_parents_def)
    consider "k = c" | "k = p" | "k \<noteq> c" "k \<noteq> p" by blast
    then show "parents (cell s2 a) =
        (if k = c then ps else if k \<in> set res then [] else parents (cell s0 a))"
    proof cases
      case 1
      with addr_c m at_c show ?thesis by simp
    next
      case 2
      with addr_p m at_p old pc show ?thesis by simp
    next
      case 3
      with other[OF m] old show ?thesis by simp
    qed
  qed
  have C: "inner_children cg s0 s2 c (dn @ [p]) res"
    unfolding inner_children_def
  proof (clarify)
    fix k a assume m: "(k, a) \<in> set cg"
    from ic m have old: "distinct (children (cell s a))"
      "set (children (cell s a)) = set (children (cell s0 a)) - set res
          - (if k \<in> set dn then {c} else {})"
      by (auto simp: inner_children_def)
    consider "k = p" | "k = c" | "k \<noteq> c" "k \<noteq> p" by blast
    then show "distinct (children (cell s2 a)) \<and>
       set (children (cell s2 a)) = set (children (cell s0 a)) - set res
          - (if k \<in> set (dn @ [p]) then {c} else {})"
    proof cases
      case 1
      with addr_p m have a: "a = pa" by simp
      show ?thesis using chp pdn unfolding a at_p 1 by (simp add: set_remove1_eq)
    next
      case 2
      with addr_c m have a: "a = ca" by simp
      show ?thesis using old pc unfolding a at_c 2 by simp
    next
      case 3
      with other[OF m] old show ?thesis by simp
    qed
  qed
  have Q: "loop_queue cg s2 (res @ c # q1)"
    unfolding loop_queue_def
  proof (clarify)
    fix k a assume m: "(k, a) \<in> set cg"
    from qu m have old: "(children (cell s a) = []) = (k \<in> set (res @ c # q))"
      by (auto simp: loop_queue_def)
    consider "k = p" | "k = c" | "k \<noteq> c" "k \<noteq> p" by blast
    then show "(children (cell s2 a) = []) = (k \<in> set (res @ c # q1))"
    proof cases
      case 1
      with addr_p m have a: "a = pa" by simp
      show ?thesis using p_notin unfolding a 1 q1_def by auto
    next
      case 2
      with addr_c m have a: "a = ca" by simp
      show ?thesis using old unfolding a at_c 2 by simp
    next
      case 3
      with other[OF m] old show ?thesis by (auto simp: q1_def)
    qed
  qed
  have O: "loop_order cg s0 (res @ c # q1)"
  proof (cases "length (children (cell s2 pa)) = 0")
    case False
    then show ?thesis using ord by (simp add: q1_def)
  next
    case True
    then have "remove1 c (children (cell s pa)) = []" unfolding at_p by simp
    then have "set (remove1 c (children (cell s pa))) = {}" by simp
    then have "set (children (cell s pa)) - {c} = {}"
      using chp(1) by (simp only: set_remove1_eq)
    then have e: "set (children (cell s0 pa)) - set res - {c} = {}"
      using chp(2) pdn by simp
    have "loop_order cg s0 ((res @ c # q) @ [p])"
    proof (rule loop_order_snoc[OF ord p_notin])
      show "p \<in> fst ` set cg" using pa by force
    next
      fix x assume "(x, p) \<in> edges s0 cg"
      then obtain xa where xa: "(x, xa) \<in> set cg" "p \<in> set (parents (cell s0 xa))"
        by (auto simp: in_edges)
      from wf_graph_parent[OF wf xa] obtain pa' where
        "(p, pa') \<in> set cg" "x \<in> set (children (cell s0 pa'))" by blast
      with addr_p have "x \<in> set (children (cell s0 pa))" by simp
      with e show "x \<in> set (res @ c # q)" by auto
    qed
    with True show ?thesis by (simp add: q1_def)
  qed
  from unfold P C Q O show ?thesis by blast
qed

subsection \<open>The outer loop and the result\<close>

lemma remove_edges_inv:
  assumes wf: "wf_graph s0 cg" and c: "(c, ca) \<in> set cg"
  shows "parents (cell s0 ca) = dn @ ps \<Longrightarrow> inner_parents cg s0 s c ps res \<Longrightarrow>
     inner_children cg s0 s c dn res \<Longrightarrow> loop_queue cg s (res @ c # q) \<Longrightarrow>
     loop_order cg s0 (res @ c # q) \<Longrightarrow>
     \<exists>s' q'. remove_edges cg c ps s q = (s', Inr q')
        \<and> inner_parents cg s0 s' c [] res
        \<and> inner_children cg s0 s' c (dn @ ps) res
        \<and> loop_queue cg s' (res @ c # q')
        \<and> loop_order cg s0 (res @ c # q')"
proof (induction ps arbitrary: s q dn)
  case Nil
  then show ?case by simp
next
  case (Cons p ps)
  from remove_edges_step[OF wf c Cons.prems] obtain s2 q1 where
    st: "remove_edges cg c (p # ps) s q = remove_edges cg c ps s2 q1"
    "inner_parents cg s0 s2 c ps res" "inner_children cg s0 s2 c (dn @ [p]) res"
    "loop_queue cg s2 (res @ c # q1)" "loop_order cg s0 (res @ c # q1)"
    by blast
  from Cons.prems(1) have "parents (cell s0 ca) = (dn @ [p]) @ ps" by simp
  from Cons.IH[OF this st(2-5)] st(1) show ?case by simp
qed

lemma loop_to_inner:
  assumes wf: "wf_graph s0 cg" and c: "(c, ca) \<in> set cg" and cres: "c \<notin> set res"
    and lp: "loop_parents cg s0 s res" and lc: "loop_children cg s0 s res"
  shows "inner_parents cg s0 s c (parents (cell s0 ca)) res" "inner_children cg s0 s c [] res"
    "parents (cell s ca) = parents (cell s0 ca)"
proof -
  show "inner_parents cg s0 s c (parents (cell s0 ca)) res"
    unfolding inner_parents_def
  proof (clarify)
    fix k a assume m: "(k, a) \<in> set cg"
    from lp m have old: "parents (cell s a) = (if k \<in> set res then [] else parents (cell s0 a))"
      by (auto simp: loop_parents_def)
    show "parents (cell s a) = (if k = c then parents (cell s0 ca)
        else if k \<in> set res then [] else parents (cell s0 a))"
    proof (cases "k = c")
      case True
      with wf_graph_same[OF wf m c] have "a = ca" by simp
      with old True cres show ?thesis by simp
    next
      case False
      with old show ?thesis by simp
    qed
  qed
  show "inner_children cg s0 s c [] res"
    using lc by (simp add: inner_children_def loop_children_def)
  show "parents (cell s ca) = parents (cell s0 ca)"
    using lp c cres by (auto simp: loop_parents_def)
qed

lemma inner_to_loop:
  assumes wf: "wf_graph s0 cg" and c: "(c, ca) \<in> set cg"
    and ip: "inner_parents cg s0 s c [] res"
    and ic: "inner_children cg s0 s c (parents (cell s0 ca)) res"
  shows "loop_parents cg s0 s (res @ [c])" "loop_children cg s0 s (res @ [c])"
proof -
  show "loop_parents cg s0 s (res @ [c])"
    unfolding loop_parents_def
  proof (clarify)
    fix k a assume m: "(k, a) \<in> set cg"
    from ip m have "parents (cell s a) =
        (if k = c then [] else if k \<in> set res then [] else parents (cell s0 a))"
      by (auto simp: inner_parents_def)
    then show "parents (cell s a) = (if k \<in> set (res @ [c]) then [] else parents (cell s0 a))"
      by simp
  qed
  show "loop_children cg s0 s (res @ [c])"
    unfolding loop_children_def
  proof (clarify)
    fix k a assume m: "(k, a) \<in> set cg"
    from ic m have old: "distinct (children (cell s a))"
      "set (children (cell s a)) = set (children (cell s0 a)) - set res
          - (if k \<in> set (parents (cell s0 ca)) then {c} else {})"
      by (auto simp: inner_children_def)
    have "k \<in> set (parents (cell s0 ca))" if "c \<in> set (children (cell s0 a))"
    proof -
      from wf_graph_child[OF wf m that] obtain ca' where
        "(c, ca') \<in> set cg" "k \<in> set (parents (cell s0 ca'))" by blast
      with wf_graph_same[OF wf this(1) c] show ?thesis by simp
    qed
    with old show "distinct (children (cell s a)) \<and>
       set (children (cell s a)) = set (children (cell s0 a)) - set (res @ [c])"
      by auto
  qed
qed

lemma sort_loop_inv:
  "wf_graph s0 cg \<Longrightarrow> loop_parents cg s0 s res \<Longrightarrow> loop_children cg s0 s res \<Longrightarrow>
   loop_queue cg s (res @ q) \<Longrightarrow> loop_order cg s0 (res @ q) \<Longrightarrow>
     \<exists>s' res'. sort_loop cg s q res = (s', Inr res') \<and> loop_children cg s0 s' res'
        \<and> loop_queue cg s' res' \<and> loop_order cg s0 res'"
proof (induction cg s q res rule: sort_loop.induct)
  case (1 cg s queue result)
  note wf = "1.prems"(1)
  show ?case
  proof (cases queue)
    case Nil
    with "1.prems" show ?thesis by simp
  next
    case (Cons c rest)
    from "1.prems"(5) Cons have "c \<in> fst ` set cg" and cres: "c \<notin> set result"
      by (auto simp: loop_order_def)
    then obtain ca where c: "(c, ca) \<in> set cg" by auto
    note look = wf_graph_lookup[OF wf c]
    note li = loop_to_inner[OF wf c cres "1.prems"(2,3)]
    have q: "loop_queue cg s (result @ c # rest)" "loop_order cg s0 (result @ c # rest)"
      using "1.prems"(4,5) Cons by simp_all
    have "parents (cell s0 ca) = [] @ parents (cell s0 ca)" by simp
    from remove_edges_inv[OF wf c this li(1,2) q] obtain s1 q' where
      re: "remove_edges cg c (parents (cell s0 ca)) s rest = (s1, Inr q')"
      and ip: "inner_parents cg s0 s1 c [] result"
      and ic: "inner_children cg s0 s1 c (parents (cell s0 ca)) result"
      and qu: "loop_queue cg s1 (result @ c # q')" and ord: "loop_order cg s0 (result @ c # q')"
      by auto
    from re li(3) have re': "(s1, Inr q') = remove_edges cg c (parents (cell s ca)) s rest"
      by simp
    note il = inner_to_loop[OF wf c ip ic]
    have q2: "loop_queue cg s1 ((result @ [c]) @ q')" "loop_order cg s0 ((result @ [c]) @ q')"
      using qu ord by simp_all
    from "1.IH"[OF Cons look re' refl wf il q2]
    obtain s' res' where "sort_loop cg s1 q' (result @ [c]) = (s', Inr res')"
      "loop_children cg s0 s' res'" "loop_queue cg s' res'" "loop_order cg s0 res'"
      by blast
    moreover have "sort_loop cg s queue result = sort_loop cg s1 q' (result @ [c])"
      using Cons look re'[symmetric] by simp
    ultimately show ?thesis by simp
  qed
qed

lemma initial_state:
  assumes wf: "wf_graph s0 cg"
  shows "loop_parents cg s0 s0 []" "loop_children cg s0 s0 []"
    "loop_queue cg s0 ([] @ childless s0 cg)" "loop_order cg s0 ([] @ childless s0 cg)"
proof -
  show "loop_parents cg s0 s0 []" by (simp add: loop_parents_def)
  show "loop_children cg s0 s0 []"
    using wf_graph_distinct(2)[OF wf] by (auto simp: loop_children_def)
  have mem: "(k \<in> set (childless s0 cg)) = (children (cell s0 a) = [])"
    if "(k, a) \<in> set cg" for k a
  proof -
    from that have "k \<in> set (map fst cg)" by force
    with wf_graph_lookup[OF wf that] show ?thesis by (simp add: childless_def)
  qed
  then show "loop_queue cg s0 ([] @ childless s0 cg)" by (auto simp: loop_queue_def)
  show "loop_order cg s0 ([] @ childless s0 cg)"
    unfolding loop_order_def
  proof (intro conjI ballI)
    show "distinct ([] @ childless s0 cg)"
      using wf_graph_keys[OF wf] by (simp add: childless_def)
    show "set ([] @ childless s0 cg) \<subseteq> fst ` set cg" by (auto simp: childless_def)
  next
    fix e assume e: "e \<in> edges s0 cg"
    obtain x y where xy: "e = (x, y)" by (cases e)
    from e xy obtain xa where xa: "(x, xa) \<in> set cg" "y \<in> set (parents (cell s0 xa))"
      by (auto simp: in_edges)
    from wf_graph_parent[OF wf xa] obtain ya where
      ya: "(y, ya) \<in> set cg" "x \<in> set (children (cell s0 ya))" by blast
    from ya(2) have "children (cell s0 ya) \<noteq> []" by auto
    with mem[OF ya(1)] have "y \<notin> set (childless s0 cg)" by simp
    then show "case e of (x, y) \<Rightarrow> y \<in> set ([] @ childless s0 cg) \<longrightarrow>
        index_of x ([] @ childless s0 cg) < index_of y ([] @ childless s0 cg)"
      unfolding xy by simp
  qed
qed

lemma final_complete:
  assumes wf: "wf_graph s0 cg" and lc: "loop_children cg s0 s' res"
    and qu: "loop_queue cg s' res" and ac: "acyclic (edges s0 cg)"
  shows "fst ` set cg \<subseteq> set res"
proof (rule ccontr)
  assume "\<not> fst ` set cg \<subseteq> set res"
  then obtain u where u: "u \<in> fst ` set cg - set res" by blast
  have "wf (edges s0 cg)" using finite_edges ac by (rule finite_acyclic_wf)
  from wfE_min[OF this u] obtain z where
    z: "z \<in> fst ` set cg - set res" and
    mn: "\<And>y. (y, z) \<in> edges s0 cg \<Longrightarrow> y \<notin> fst ` set cg - set res"
    by blast
  from z obtain za where za: "(z, za) \<in> set cg" and zr: "z \<notin> set res" by auto
  from qu za zr have "children (cell s' za) \<noteq> []" by (auto simp: loop_queue_def)
  then obtain x where "x \<in> set (children (cell s' za))" by (cases "children (cell s' za)") auto
  with lc za have x: "x \<in> set (children (cell s0 za))" "x \<notin> set res"
    by (auto simp: loop_children_def)
  from wf_graph_child[OF wf za x(1)] obtain xa where
    xa: "(x, xa) \<in> set cg" "z \<in> set (parents (cell s0 xa))" by blast
  then have "(x, z) \<in> edges s0 cg" by (auto simp: in_edges)
  moreover from xa(1) x(2) have "x \<in> fst ` set cg - set res" by force
  ultimately show False using mn by blast
qed

lemma final_acyclic:
  assumes wf: "wf_graph s0 cg" and ord: "loop_order cg s0 res" and all: "fst ` set cg \<subseteq> set res"
  shows "acyclic (edges s0 cg)"
proof -
  have "edges s0 cg \<subseteq> measure (\<lambda>k. index_of k res)"
  proof
    fix e assume e: "e \<in> edges s0 cg"
    obtain x y where xy: "e = (x, y)" by (cases e)
    from e xy obtain xa where xa: "(x, xa) \<in> set cg" "y \<in> set (parents (cell s0 xa))"
      by (auto simp: in_edges)
    from wf_graph_parent[OF wf xa] obtain ya where "(y, ya) \<in> set cg" by blast
    then have "y \<in> fst ` set cg" by force
    with all have "y \<in> set res" by blast
    with ord e xy have "index_of x res < index_of y res" by (auto simp: loop_order_def)
    then show "e \<in> measure (\<lambda>k. index_of k res)" by (simp add: xy)
  qed
  then have "wf (edges s0 cg)" by (rule wf_subset[OF wf_measure])
  then show ?thesis by (rule wf_acyclic)
qed

lemma topo_sort_result:
  assumes wf: "wf_graph s g"
  shows "\<exists>s' res. distinct res \<and> set res \<subseteq> fst ` set g
           \<and> (\<forall>(x, y) \<in> edges s g. y \<in> set res \<longrightarrow> index_of x res < index_of y res)
           \<and> (if acyclic (edges s g)
               then set res = fst ` set g \<and> topo_sort s g = (s', Inr res)
               else topo_sort s g = (s', Inl (Exit ''Cycle detected in graph'' 1)))"
proof -
  obtain s1 cg where d: "deepcopy s g = (s1, cg)" by (cases "deepcopy s g")
  note dw = deepcopy_wf[OF wf d]
  have ed: "edges s1 cg = edges s g" using dw(2) by (simp add: edges_def)
  have "map fst cg = map fst g" using dw(2) keys_node_items by metis
  then have keys: "fst ` set cg = fst ` set g" by (metis set_map)
  note ini = initial_state[OF dw(1)]
  from sort_loop_inv[OF dw(1) ini] obtain s' res where
    sl: "sort_loop cg s1 (childless s1 cg) [] = (s', Inr res)"
    and lc: "loop_children cg s1 s' res" and qu': "loop_queue cg s' res"
    and ord: "loop_order cg s1 res"
    by blast
  from ord have dist: "distinct res" and sub: "set res \<subseteq> fst ` set g"
    and prec: "\<forall>(x, y) \<in> edges s g. y \<in> set res \<longrightarrow> index_of x res < index_of y res"
    unfolding loop_order_def ed keys by simp_all
  have "length cg = card (fst ` set cg)"
    using wf_graph_keys[OF dw(1)] by (metis distinct_card length_map set_map)
  with dw(3) keys have lg: "length g = card (fst ` set g)" by simp
  have lr: "length res = card (set res)" using dist by (simp add: distinct_card)
  show ?thesis
  proof (cases "acyclic (edges s g)")
    case True
    with final_complete[OF dw(1) lc qu'] ed keys sub have eq: "set res = fst ` set g" by auto
    with lg lr have "length res = length g" by simp
    with sl d have "topo_sort s g = (s', Inr res)" by (simp add: topo_sort_def)
    with True eq dist sub prec show ?thesis by auto
  next
    case False
    have "\<not> fst ` set cg \<subseteq> set res"
      using final_acyclic[OF dw(1) ord] False ed by auto
    with keys sub have "set res \<subset> fst ` set g" by auto
    then have "card (set res) < card (fst ` set g)" by (intro psubset_card_mono) simp_all
    with lg lr have "length res \<noteq> length g" by simp
    with sl d have "topo_sort s g = (s', Inl (Exit ''Cycle detected in graph'' 1))"
      by (simp add: topo_sort_def)
    with False dist sub prec show ?thesis by auto
  qed
qed

subsection \<open>The Graph Builder gives well-formed graphs\<close>

lemma wf_graphI:
  assumes "distinct (map fst g)" "distinct (map snd g)"
    and "\<And>k a. (k, a) \<in> set g \<Longrightarrow> a < next_free s"
    and "\<And>k a. (k, a) \<in> set g \<Longrightarrow> distinct (parents (cell s a)) \<and> distinct (children (cell s a))"
    and "\<And>k a p. (k, a) \<in> set g \<Longrightarrow> p \<in> set (parents (cell s a)) \<Longrightarrow>
           \<exists>pa. (p, pa) \<in> set g \<and> k \<in> set (children (cell s pa))"
    and "\<And>k a c. (k, a) \<in> set g \<Longrightarrow> c \<in> set (children (cell s a)) \<Longrightarrow>
           \<exists>ca. (c, ca) \<in> set g \<and> k \<in> set (parents (cell s ca))"
  shows "wf_graph s g"
proof -
  have look: "map_of (node_items s g) k = Some (cell s a)" if "(k, a) \<in> set g" for k a
    using that assms(1) by (simp add: map_of_node_items)
  have "wf_items (node_items s g)"
    unfolding wf_items_def
  proof (intro conjI ballI)
    show "distinct (map fst (node_items s g))" using assms(1) by (simp add: keys_node_items)
  next
    fix e assume "e \<in> set (node_items s g)"
    then obtain k a where e: "e = (k, cell s a)" and m: "(k, a) \<in> set g"
      by (auto simp: node_items_def)
    have "\<forall>p \<in> set (parents (cell s a)).
        case map_of (node_items s g) p of None \<Rightarrow> False | Some pn \<Rightarrow> k \<in> set (children pn)"
    proof
      fix p assume "p \<in> set (parents (cell s a))"
      from assms(5)[OF m this] obtain pa where "(p, pa) \<in> set g" "k \<in> set (children (cell s pa))"
        by blast
      with look show "case map_of (node_items s g) p of None \<Rightarrow> False
          | Some pn \<Rightarrow> k \<in> set (children pn)" by simp
    qed
    moreover have "\<forall>c \<in> set (children (cell s a)).
        case map_of (node_items s g) c of None \<Rightarrow> False | Some cn \<Rightarrow> k \<in> set (parents cn)"
    proof
      fix c assume "c \<in> set (children (cell s a))"
      from assms(6)[OF m this] obtain ca where "(c, ca) \<in> set g" "k \<in> set (parents (cell s ca))"
        by blast
      with look show "case map_of (node_items s g) c of None \<Rightarrow> False
          | Some cn \<Rightarrow> k \<in> set (parents cn)" by simp
    qed
    ultimately show "case e of (k, n) \<Rightarrow> distinct (parents n) \<and> distinct (children n) \<and>
        (\<forall>p \<in> set (parents n).
           case map_of (node_items s g) p of None \<Rightarrow> False | Some pn \<Rightarrow> k \<in> set (children pn)) \<and>
        (\<forall>c \<in> set (children n).
           case map_of (node_items s g) c of None \<Rightarrow> False | Some cn \<Rightarrow> k \<in> set (parents cn))"
      unfolding e using assms(4)[OF m] by simp
  qed
  with assms(2,3) show ?thesis by (auto simp: wf_graph_def)
qed

lemma wf_graph_alloc: "wf_graph s g \<Longrightarrow> (k, a) \<in> set g \<Longrightarrow> a < next_free s"
  by (auto simp: wf_graph_def)

lemma ensure_node_wf:
  assumes wf: "wf_graph s g" and en: "ensure_node key h s g = (s1, g1, a)"
  shows "wf_graph s1 g1" "(key, a) \<in> set g1" "set g \<subseteq> set g1"
proof -
  show "wf_graph s1 g1 "
  proof (cases "map_of g key")
    case (Some b)
    with en wf show ?thesis by (simp add: ensure_node_def)
  next
    case None
    with en have e: "s1 = alloc (new_CommitNode h) s" "g1 = g @ [(key, next_free s)]"
      by (auto simp: ensure_node_def)
    from None have nk: "key \<notin> fst ` set g" by (simp add: map_of_eq_None_iff)
    have old: "cell s1 b = cell s b" if "(k, b) \<in> set g" for k b
      using wf_graph_alloc[OF wf that] by (simp add: e cell_alloc)
    have new: "cell s1 (next_free s) = new_CommitNode h" by (simp add: e cell_alloc)
    have addr: "next_free s \<notin> snd ` set g"
      using wf_graph_alloc[OF wf] by fastforce
    show ?thesis
    proof (rule wf_graphI)
      show "distinct (map fst g1)" using wf_graph_keys[OF wf] nk by (simp add: e)
      show "distinct (map snd g1)" using wf_graph_addrs[OF wf] addr by (simp add: e)
    next
      fix k b assume "(k, b) \<in> set g1"
      then show "b < next_free s1"
        using wf_graph_alloc[OF wf] by (auto simp: e next_free_alloc less_Suc_eq)
    next
      fix k b assume "(k, b) \<in> set g1"
      then show "distinct (parents (cell s1 b)) \<and> distinct (children (cell s1 b))"
        using wf_graph_distinct[OF wf] old new
        by (auto simp: e(2) new_CommitNode_def)
    next
      fix k b p assume m: "(k, b) \<in> set g1" and p: "p \<in> set (parents (cell s1 b))"
      from m p new have m': "(k, b) \<in> set g"
        by (auto simp: e(2) new_CommitNode_def)
      with p old have "p \<in> set (parents (cell s b))" by simp
      from wf_graph_parent[OF wf m' this] obtain pa where
        "(p, pa) \<in> set g" "k \<in> set (children (cell s pa))" by blast
      with old show "\<exists>pa. (p, pa) \<in> set g1 \<and> k \<in> set (children (cell s1 pa))"
        by (auto simp: e(2))
    next
      fix k b c assume m: "(k, b) \<in> set g1" and c: "c \<in> set (children (cell s1 b))"
      from m c new have m': "(k, b) \<in> set g"
        by (auto simp: e(2) new_CommitNode_def)
      with c old have "c \<in> set (children (cell s b))" by simp
      from wf_graph_child[OF wf m' this] obtain ca where
        "(c, ca) \<in> set g" "k \<in> set (parents (cell s ca))" by blast
      with old show "\<exists>ca. (c, ca) \<in> set g1 \<and> k \<in> set (parents (cell s1 ca))"
        by (auto simp: e(2))
    qed
  qed
  show "(key, a) \<in> set g1" "set g \<subseteq> set g1"
    using en by (auto simp: ensure_node_def split: option.splits dest: map_of_SomeD)
qed

lemma add_edge_wf:
  assumes wf: "wf_graph s g" and c: "(c, ca) \<in> set g" and p: "(p, pa) \<in> set g"
  defines "s2 \<equiv> put ca ((cell s ca)\<lparr>parents := set_add p (parents (cell s ca))\<rparr>) s"
  defines "s3 \<equiv> put pa ((cell s2 pa)\<lparr>children := set_add c (children (cell s2 pa))\<rparr>) s2"
  shows "wf_graph s3 g"
proof -
  have par: "parents (cell s3 a) =
      (if k = c then set_add p (parents (cell s a)) else parents (cell s a))"
    and chi: "children (cell s3 a) =
      (if k = p then set_add c (children (cell s a)) else children (cell s a))"
    if m: "(k, a) \<in> set g" for k a
    using wf_graph_same[OF wf m c] wf_graph_same[OF wf m p]
    by (auto simp: s3_def s2_def cell_put)
  have sub: "set (children (cell s a)) \<subseteq> set (children (cell s3 a))"
    "set (parents (cell s a)) \<subseteq> set (parents (cell s3 a))" if m: "(k, a) \<in> set g" for k a
    using par[OF m] chi[OF m] by (auto simp: set_add_def)
  show ?thesis
  proof (rule wf_graphI)
    show "distinct (map fst g)" by (rule wf_graph_keys[OF wf])
    show "distinct (map snd g)" by (rule wf_graph_addrs[OF wf])
  next
    fix k a assume "(k, a) \<in> set g"
    then show "a < next_free s3"
      using wf_graph_alloc[OF wf] by (simp add: s3_def s2_def next_free_put)
  next
    fix k a assume m: "(k, a) \<in> set g"
    show "distinct (parents (cell s3 a)) \<and> distinct (children (cell s3 a))"
      using wf_graph_distinct[OF wf m] unfolding par[OF m] chi[OF m]
      by (simp add: set_add_def)
  next
    fix k a q assume m: "(k, a) \<in> set g" and q: "q \<in> set (parents (cell s3 a))"
    show "\<exists>qa. (q, qa) \<in> set g \<and> k \<in> set (children (cell s3 qa))"
    proof (cases "q \<in> set (parents (cell s a))")
      case True
      from wf_graph_parent[OF wf m True] obtain qa where
        qa: "(q, qa) \<in> set g" "k \<in> set (children (cell s qa))" by blast
      with sub(1)[OF qa(1)] show ?thesis by blast
    next
      case False
      with q par[OF m] have "k = c" "q = p"
        by (auto simp: set_add_def split: if_splits)
      with chi[OF p] p show ?thesis by (auto simp: set_add_def)
    qed
  next
    fix k a q assume m: "(k, a) \<in> set g" and q: "q \<in> set (children (cell s3 a))"
    show "\<exists>qa. (q, qa) \<in> set g \<and> k \<in> set (parents (cell s3 qa))"
    proof (cases "q \<in> set (children (cell s a))")
      case True
      from wf_graph_child[OF wf m True] obtain qa where
        qa: "(q, qa) \<in> set g" "k \<in> set (parents (cell s qa))" by blast
      with sub(2)[OF qa(1)] show ?thesis by blast
    next
      case False
      with q chi[OF m] have "k = p" "q = c"
        by (auto simp: set_add_def split: if_splits)
      with par[OF c] c show ?thesis by (auto simp: set_add_def)
    qed
  qed
qed

lemma add_parents_wf:
  "wf_graph s g \<Longrightarrow> (c, ca) \<in> set g \<Longrightarrow> add_parents c ca visited ps (s, g, stack) = (s', g', stack')
     \<Longrightarrow> wf_graph s' g'"
proof (induction ps arbitrary: s g stack)
  case Nil
  then show ?case by simp
next
  case (Cons p ps)
  obtain s1 g1 pa where en: "ensure_node p c s g = (s1, g1, pa)"
    by (cases "ensure_node p c s g") auto
  note e = ensure_node_wf[OF Cons.prems(1) en]
  from e(3) Cons.prems(2) have c1: "(c, ca) \<in> set g1" by blast
  let ?s2 = "put ca ((cell s1 ca)\<lparr>parents := set_add p (parents (cell s1 ca))\<rparr>) s1"
  let ?s3 = "put pa ((cell ?s2 pa)\<lparr>children := set_add c (children (cell ?s2 pa))\<rparr>) ?s2"
  let ?st = "if p \<notin> set visited then set_add p stack else stack"
  have w3: "wf_graph ?s3 g1" by (rule add_edge_wf[OF e(1) c1 e(2)])
  have "add_parents c ca visited ps (?s3, g1, ?st) = (s', g', stack')"
    using Cons.prems(3) en by (simp add: Let_def)
  from Cons.IH[OF w3 c1 this] show ?case .
qed

lemma make_commit_graph_loop_wf:
  "wf_graph s g \<Longrightarrow> make_commit_graph_loop e stack s g visited = Inr (s', g') \<Longrightarrow> wf_graph s' g'"
proof (induction e stack s g visited rule: make_commit_graph_loop.induct)
  case (1 e stack s result visited)
  show ?case
  proof (cases stack)
    case Nil
    with "1.prems" show ?thesis by (simp add: make_commit_graph_loop.simps)
  next
    case (Cons popped rest)
    show ?thesis
    proof (cases "strip popped \<in> set visited")
      case True
      with "1.prems"(2) Cons have "make_commit_graph_loop e rest s result visited = Inr (s', g')"
        by (subst (asm) make_commit_graph_loop.simps) simp
      from "1.IH"(1)[OF Cons refl True "1.prems"(1) this] show ?thesis .
    next
      case False
      obtain s1 g1 ca where en: "ensure_node (strip popped) (strip popped) s result = (s1, g1, ca)"
        by (cases "ensure_node (strip popped) (strip popped) s result") auto
      note w1 = ensure_node_wf[OF "1.prems"(1) en]
      show ?thesis
      proof (cases "parents_of e (strip popped)")
        case (Inl f)
        with "1.prems"(2) Cons False en show ?thesis
          by (subst (asm) make_commit_graph_loop.simps) simp
      next
        case (Inr ps)
        obtain s2 g2 st2 where ap: "add_parents (strip popped) ca
            (set_add (strip popped) visited) ps (s1, g1, rest) = (s2, g2, st2)"
          by (cases "add_parents (strip popped) ca (set_add (strip popped) visited) ps (s1, g1, rest)")
            auto
        have w2: "wf_graph s2 g2" by (rule add_parents_wf[OF w1(1,2) ap])
        have "make_commit_graph_loop e st2 s2 g2 (set_add (strip popped) visited) = Inr (s', g')"
          using "1.prems"(2) Cons False Inr en ap
          by (subst (asm) make_commit_graph_loop.simps) simp
        from "1.IH"(2)[OF Cons refl False en[symmetric] refl Inr ap[symmetric] refl w2 this]
        show ?thesis .
      qed
    qed
  qed
qed

lemma make_commit_graph_wf:
  "make_commit_graph e b = Inr (s, g) \<Longrightarrow> wf_graph s g"
proof -
  have "wf_graph empty_store []"
    by (simp add: wf_graph_def wf_items_def node_items_def)
  then show "make_commit_graph e b = Inr (s, g) \<Longrightarrow> wf_graph s g"
    unfolding make_commit_graph_def by (rule make_commit_graph_loop_wf)
qed

subsection \<open>The claims about the sorter\<close>

lemma diamond_wf: "wf_graph diamond_store diamond_graph"
  by code_simp

lemma diamond_edges:
  "edges diamond_store diamond_graph
     = {(''m'', ''x''), (''m'', ''y''), (''x'', ''r''), (''y'', ''r'')}"
  by (simp add: edges_def edges_of_def node_items_def diamond_store_def diamond_graph_def)

lemma diamond_acyclic: "acyclic (edges diamond_store diamond_graph)"
  unfolding diamond_edges
  by (rule acyclicI_order[where f = "\<lambda>k. if k = ''r'' then 0 else if k = ''m'' then 2 else (1::nat)"])
    auto

text \<open>
  Claim C1: for every Graph (the invariant of the data model holds) that is acyclic,
  \<^verbatim>\<open>topo_sort\<close> returns a list, and for every commit \<open>c\<close> of the graph and every parent \<open>p\<close>
  of \<open>c\<close>, both occur in the list and \<open>c\<close> occurs at a strictly earlier index than \<open>p\<close>.
\<close>

theorem topo_sort_children_first:
  assumes "wf_graph s g" and "acyclic (edges s g)"
  shows "\<exists>s' res. topo_sort s g = (s', Inr res) \<and>
           (\<forall>(c, a) \<in> set g. \<forall>p \<in> set (parents (cell s a)).
               c \<in> set res \<and> p \<in> set res \<and> index_of c res < index_of p res)"
proof -
  from topo_sort_result[OF assms(1)] assms(2) obtain s' res where
    r: "topo_sort s g = (s', Inr res)" and all: "set res = fst ` set g"
    and prec: "\<forall>(x, y) \<in> edges s g. y \<in> set res \<longrightarrow> index_of x res < index_of y res"
    by auto
  have "c \<in> set res \<and> p \<in> set res \<and> index_of c res < index_of p res"
    if m: "(c, a) \<in> set g" and p: "p \<in> set (parents (cell s a))" for c a p
  proof -
    from m p have e: "(c, p) \<in> edges s g" by (auto simp: in_edges)
    from wf_graph_parent[OF assms(1) m p] obtain pa where "(p, pa) \<in> set g" by blast
    then have "p \<in> fst ` set g" by force
    moreover from m have "c \<in> fst ` set g" by force
    ultimately show ?thesis using all prec e by auto
  qed
  with r show ?thesis by blast
qed

theorem topo_sort_children_first_witness:
  "\<exists>s' res. topo_sort diamond_store diamond_graph = (s', Inr res)
      \<and> index_of ''m'' res < index_of ''x'' res \<and> index_of ''m'' res < index_of ''y'' res
      \<and> index_of ''x'' res < index_of ''r'' res \<and> index_of ''y'' res < index_of ''r'' res"
proof -
  from topo_sort_children_first[OF diamond_wf diamond_acyclic] obtain s' res where
    r: "topo_sort diamond_store diamond_graph = (s', Inr res)"
    and p: "\<forall>(c, a) \<in> set diamond_graph. \<forall>p \<in> set (parents (cell diamond_store a)).
               c \<in> set res \<and> p \<in> set res \<and> index_of c res < index_of p res"
    by blast
  from p have "index_of ''m'' res < index_of ''x'' res" "index_of ''m'' res < index_of ''y'' res"
    "index_of ''x'' res < index_of ''r'' res" "index_of ''y'' res < index_of ''r'' res"
    by (simp_all add: diamond_graph_def diamond_store_def)
  with r show ?thesis by blast
qed

text \<open>
  Claim C2: for every acyclic Graph, \<^verbatim>\<open>topo_sort\<close> returns a list that is a permutation of
  the keys of the graph: no hash is repeated, and the hashes of the list are exactly
  the keys.
\<close>

theorem topo_sort_permutation:
  assumes "wf_graph s g" and "acyclic (edges s g)"
  shows "\<exists>s' res. topo_sort s g = (s', Inr res) \<and> distinct res \<and> set res = fst ` set g
           \<and> length res = length g"
proof -
  from topo_sort_result[OF assms(1)] assms(2) obtain s' res where
    r: "topo_sort s g = (s', Inr res)" and all: "set res = fst ` set g" and d: "distinct res"
    by auto
  have "length res = card (fst ` set g)" using d all by (metis distinct_card)
  also have "\<dots> = length g"
    using wf_graph_keys[OF assms(1)] by (metis distinct_card length_map set_map)
  finally show ?thesis using r all d by blast
qed

theorem topo_sort_permutation_witness:
  "\<exists>s' res. topo_sort diamond_store diamond_graph = (s', Inr res) \<and> distinct res
      \<and> set res = {''m'', ''x'', ''y'', ''r''} \<and> length res = 4"
proof -
  from topo_sort_permutation[OF diamond_wf diamond_acyclic] obtain s' res where
    "topo_sort diamond_store diamond_graph = (s', Inr res)" "distinct res"
    "set res = fst ` set diamond_graph" "length res = length diamond_graph"
    by blast
  then show ?thesis by (auto simp: diamond_graph_def)
qed

text \<open>
  Claim C7: \<^verbatim>\<open>topo_sort\<close> does not change its input. Whatever the graph, after the call
  every object that existed before it is as it was, so every node of the caller's graph
  has the parents and the children it had: the loops write to the copies only.
\<close>

theorem topo_sort_leaves_graph:
  assumes "\<forall>(k, a) \<in> set g. a < next_free s"
  shows "node_items (fst (topo_sort s g)) g = node_items s g
       \<and> (\<forall>a. a < next_free s \<longrightarrow> cell (fst (topo_sort s g)) a = cell s a)"
proof
  show "node_items (fst (topo_sort s g)) g = node_items s g"
    unfolding node_items_def using assms by (auto simp: topo_sort_cells)
  show "\<forall>a. a < next_free s \<longrightarrow> cell (fst (topo_sort s g)) a = cell s a"
    by (simp add: topo_sort_cells)
qed

theorem topo_sort_leaves_graph_witness:
  "node_items (fst (topo_sort diamond_store diamond_graph)) diamond_graph
     = node_items diamond_store diamond_graph
   \<and> parents (cell (fst (topo_sort diamond_store diamond_graph)) 0) = [''x'', ''y'']"
proof -
  have "\<forall>(k, a) \<in> set diamond_graph. a < next_free diamond_store"
    by (simp add: diamond_graph_def diamond_store_def)
  from topo_sort_leaves_graph[OF this] show ?thesis
    by (simp add: diamond_store_def)
qed

text \<open>
  Claim C6: when the graph that \<^verbatim>\<open>make_commit_graph\<close> discovers contains a cycle, the
  program writes \<^verbatim>\<open>Cycle detected in graph\<close> to the error stream, ends with exit status
  1 and has printed nothing. The witness is the repository with the cycle of two commits.
\<close>

theorem cycle_detected_exit:
  assumes "find_git_directory e = Some (Inr git_dirpath)"
    and "get_local_branches e git_dirpath = Inr b"
    and "make_commit_graph e b = Inr sg"
    and "\<not> acyclic (edges (fst sg) (snd sg))"
  shows "topo_order_commits e
           = Some \<lparr>stdout = [], ended = Some (Exit ''Cycle detected in graph'' 1)\<rparr>"
proof -
  obtain s g where sg: "sg = (s, g)" by (cases sg)
  from assms(3) sg have "wf_graph s g" by (simp add: make_commit_graph_wf)
  from topo_sort_result[OF this] assms(4) sg obtain s' where
    "topo_sort s g = (s', Inl (Exit ''Cycle detected in graph'' 1))" by auto
  with assms(1-3) sg show ?thesis by (simp add: topo_order_commits_def)
qed

theorem cycle_detected_exit_witness:
  "topo_order_commits repo_cycle
     = Some \<lparr>stdout = [], ended = Some (Exit ''Cycle detected in graph'' 1)\<rparr>"
proof -
  let ?b = "[(''aa1'', [''master''])]"
  let ?sg = "projr (make_commit_graph repo_cycle ?b)"
  have h1: "find_git_directory repo_cycle = Some (Inr ''/r/.git'')" by code_simp
  have h2: "get_local_branches repo_cycle ''/r/.git'' = Inr ?b" by code_simp
  have "\<not> isl (make_commit_graph repo_cycle ?b)" by code_simp
  then have h3: "make_commit_graph repo_cycle ?b = Inr ?sg" by simp
  have "(''aa1'', ''bb2'') \<in> edges (fst ?sg) (snd ?sg)" by code_simp
  moreover have "(''bb2'', ''aa1'') \<in> edges (fst ?sg) (snd ?sg)" by code_simp
  ultimately have "(''aa1'', ''aa1'') \<in> (edges (fst ?sg) (snd ?sg))\<^sup>+" by auto
  then have h4: "\<not> acyclic (edges (fst ?sg) (snd ?sg))" by (auto simp: acyclic_def)
  from cycle_detected_exit[OF h1 h2 h3 h4] show ?thesis .
qed

end
